theory Spec2Isabelle
  imports Complex_Main "HOL-Library.Word" "HOL-Library.AList"
begin

unbundle bit_operations_syntax

section \<open>Bytes, buffers and errors\<close>

text \<open>
  Go's \<open>byte\<close> is an 8-bit word and \<open>uint64\<close> a 64-bit word; a \<open>[]byte\<close> is a list of
  bytes (a nil slice and an empty slice are both the empty list).  Every error the codec
  returns is a constructor of \<open>error\<close>; the three \<open>Panic\<close> constructors are the
  run-time panics of an index expression, a slice expression and \<open>make\<close> when their
  operands are out of range.
\<close>

type_synonym byte = "8 word"
type_synonym u32 = "32 word"
type_synonym u64 = "64 word"

datatype error =
    ErrUnexpectedEOF
  | ErrShortBuffer
  | ErrValueTooLarge
  | ErrEmptyPacket
  | ErrLongHeaderTooShort
  | ErrPacketTruncated
  | ErrDestConnIDBounds
  | ErrSrcConnIDBounds
  | ErrTokenLength error
  | ErrTokenBounds
  | ErrLength error
  | ErrPacketNumberBounds
  | ErrEmptyFrame
  | ErrFrameType error
  | ErrUnsupportedFrame u64
  | ErrStreamDataBounds
  | ErrCryptoDataBounds
  | ErrReasonBounds
  | PanicIndex
  | PanicSlice
  | PanicMakeSlice

fun is_panic :: "error \<Rightarrow> bool" where
  "is_panic PanicIndex = True"
| "is_panic PanicSlice = True"
| "is_panic PanicMakeSlice = True"
| "is_panic (ErrTokenLength e) = is_panic e"
| "is_panic (ErrLength e) = is_panic e"
| "is_panic (ErrFrameType e) = is_panic e"
| "is_panic _ = False"

text \<open>\<open>data[i]\<close>: panics when \<open>i\<close> is not below \<open>len(data)\<close>.\<close>

definition index :: "byte list \<Rightarrow> nat \<Rightarrow> error + byte" where
  "index data i = (if i < length data then Inr (data ! i) else Inl PanicIndex)"

text \<open>\<open>data[a:]\<close>: panics when \<open>a\<close> exceeds \<open>len(data)\<close>.\<close>

definition slice_from :: "byte list \<Rightarrow> nat \<Rightarrow> error + byte list" where
  "slice_from data a = (if a \<le> length data then Inr (drop a data) else Inl PanicSlice)"

text \<open>
  \<open>data[a:b]\<close>: panics unless \<open>a \<le> b \<le> len(data)\<close>.  \<open>slice_int\<close> is the same
  expression when the bounds are \<open>int\<close> values that may be negative.
\<close>

definition slice :: "byte list \<Rightarrow> nat \<Rightarrow> nat \<Rightarrow> error + byte list" where
  "slice data a b =
     (if a \<le> b \<and> b \<le> length data then Inr (take (b - a) (drop a data))
      else Inl PanicSlice)"

definition slice_int :: "byte list \<Rightarrow> int \<Rightarrow> int \<Rightarrow> error + byte list" where
  "slice_int data a b =
     (if 0 \<le> a \<and> 0 \<le> b then slice data (nat a) (nat b) else Inl PanicSlice)"

text \<open>
  Go's \<open>int\<close> is a signed 64-bit integer on the platforms the repository targets.
  Buffer offsets are bounded by the buffer and are natural numbers in the model; where a
  length decoded from the wire (a \<open>uint64\<close>) is converted with \<open>int(x)\<close> and added to an
  offset, the conversion and the wrapping addition are written out.
\<close>

definition go_int :: "u64 \<Rightarrow> int" where
  "go_int v = sint v"

definition go_add :: "int \<Rightarrow> int \<Rightarrow> int" where
  "go_add a b = signed_take_bit 63 (a + b)"

text \<open>
  \<open>make([]byte, n)\<close> for \<open>n\<close> of type \<open>uint64\<close>: panics when \<open>n\<close> does not fit an
  \<open>int\<close>.  \<open>copy(dst, src)\<close> overwrites the first \<open>min(len(dst), len(src))\<close> bytes of
  \<open>dst\<close>; the model returns \<open>dst\<close> after the copy.
\<close>

definition make_bytes :: "u64 \<Rightarrow> error + byte list" where
  "make_bytes n = (if go_int n < 0 then Inl PanicMakeSlice else Inr (replicate (unat n) 0))"

definition copy_bytes :: "byte list \<Rightarrow> byte list \<Rightarrow> byte list" where
  "copy_bytes dst src = take (length dst) src @ drop (length src) dst"

section \<open>Variable-length integers (internal/packet/header.go)\<close>

text \<open>
  The loop of \<open>parseVarint\<close>, \<open>for i := 0; i < length; i++\<close>: the first argument counts
  the iterations that remain, \<open>i\<close> is the loop index.
\<close>

fun parseVarint_loop :: "nat \<Rightarrow> byte list \<Rightarrow> nat \<Rightarrow> u64 \<Rightarrow> error + u64" where
  "parseVarint_loop 0 data i v = Inr v"
| "parseVarint_loop (Suc k) data i v =
     (case index data i of
        Inl e \<Rightarrow> Inl e
      | Inr b \<Rightarrow>
          parseVarint_loop k data (i + 1)
            (if i = 0 then ucast (b AND 0x3F) else push_bit 8 v OR ucast b))"

definition parseVarint :: "byte list \<Rightarrow> error + (u64 \<times> nat)" where
  "parseVarint data =
     (if length data = 0 then Inl ErrUnexpectedEOF
      else case index data 0 of
        Inl e \<Rightarrow> Inl e
      | Inr firstByte \<Rightarrow>
          let len = push_bit (unat (drop_bit 6 (firstByte AND 0xC0))) (1::nat) in
          if length data < len then Inl ErrUnexpectedEOF
          else (case parseVarint_loop len data 0 0 of
                  Inl e \<Rightarrow> Inl e
                | Inr v \<Rightarrow> Inr (v, len)))"

text \<open>
  \<open>putVarint\<close> writes into \<open>buf\<close>; the model returns the number of bytes written and
  the buffer after the writes.  Every write follows its length check, so \<open>buf[i := b]\<close>
  is the assignment \<open>buf[i] = b\<close>.
\<close>

definition putVarint :: "byte list \<Rightarrow> u64 \<Rightarrow> error + (nat \<times> byte list)" where
  "putVarint buf v =
     (if v \<le> 0x3F then
        (if length buf < 1 then Inl ErrShortBuffer
         else Inr (1, buf[0 := ucast v]))
      else if v \<le> 0x3FFF then
        (if length buf < 2 then Inl ErrShortBuffer
         else Inr (2, buf[0 := ucast (drop_bit 8 v OR 0x40), 1 := ucast v]))
      else if v \<le> 0x3FFFFFFF then
        (if length buf < 4 then Inl ErrShortBuffer
         else Inr (4, buf[0 := ucast (drop_bit 24 v OR 0x80),
                          1 := ucast (drop_bit 16 v),
                          2 := ucast (drop_bit 8 v),
                          3 := ucast v]))
      else if v \<le> 0x3FFFFFFFFFFFFFFF then
        (if length buf < 8 then Inl ErrShortBuffer
         else Inr (8, buf[0 := ucast (drop_bit 56 v OR 0xC0),
                          1 := ucast (drop_bit 48 v),
                          2 := ucast (drop_bit 40 v),
                          3 := ucast (drop_bit 32 v),
                          4 := ucast (drop_bit 24 v),
                          5 := ucast (drop_bit 16 v),
                          6 := ucast (drop_bit 8 v),
                          7 := ucast v]))
      else Inl ErrValueTooLarge)"

definition varintLen :: "u64 \<Rightarrow> nat" where
  "varintLen v =
     (if v \<le> 0x3F then 1 else if v \<le> 0x3FFF then 2 else if v \<le> 0x3FFFFFFF then 4 else 8)"

text \<open>
  The bytes \<open>putVarint\<close> writes for \<open>v\<close>, as a list; \<open>putVarint_bytes\<close> below ties it to
  \<open>putVarint\<close>.
\<close>

definition varint_bytes :: "u64 \<Rightarrow> byte list" where
  "varint_bytes v =
     (if v \<le> 0x3F then [ucast v]
      else if v \<le> 0x3FFF then [ucast (drop_bit 8 v OR 0x40), ucast v]
      else if v \<le> 0x3FFFFFFF then
        [ucast (drop_bit 24 v OR 0x80), ucast (drop_bit 16 v), ucast (drop_bit 8 v), ucast v]
      else
        [ucast (drop_bit 56 v OR 0xC0), ucast (drop_bit 48 v), ucast (drop_bit 40 v),
         ucast (drop_bit 32 v), ucast (drop_bit 24 v), ucast (drop_bit 16 v),
         ucast (drop_bit 8 v), ucast v])"

section \<open>Packet headers (internal/packet/header.go)\<close>

type_synonym PacketType = byte

definition PacketTypeInitial :: PacketType where "PacketTypeInitial = 0x00"
definition PacketType0RTT :: PacketType where "PacketType0RTT = 0x01"
definition PacketTypeHandshake :: PacketType where "PacketTypeHandshake = 0x02"
definition PacketTypeRetry :: PacketType where "PacketTypeRetry = 0x03"
definition PacketTypeVersionNeg :: PacketType where "PacketTypeVersionNeg = 0xFF"
definition PacketType1RTT :: PacketType where "PacketType1RTT = 0x40"

record Header =
  Type :: PacketType
  Version :: u32
  DestConnID :: "byte list"
  SrcConnID :: "byte list"
  PacketNumber :: u64
  Token :: "byte list"
  Length :: u64
  IsLongHeader :: bool

text \<open>\<open>&Header{}\<close>: every field has its zero value.\<close>

definition zero_Header :: Header where
  "zero_Header = \<lparr>Type = 0, Version = 0, DestConnID = [], SrcConnID = [], PacketNumber = 0,
                   Token = [], Length = 0, IsLongHeader = False\<rparr>"

text \<open>
  \<open>binary.BigEndian.Uint32(b)\<close> of the standard library reads \<open>b[3]\<close> first (its bounds
  check) and combines the first four bytes, most significant first.
\<close>

definition BigEndian_Uint32 :: "byte list \<Rightarrow> error + u32" where
  "BigEndian_Uint32 b =
     (case index b 3 of
        Inl e \<Rightarrow> Inl e
      | Inr b3 \<Rightarrow>
          Inr (ucast b3 OR push_bit 8 (ucast (b ! 2)) OR push_bit 16 (ucast (b ! 1))
                 OR push_bit 24 (ucast (b ! 0))))"

text \<open>
  The packet-number loop, \<open>for i := 0; i < pnLen; i++ { pn = (pn << 8) | uint64(data[offset+i]) }\<close>;
  the first argument counts the iterations that remain.
\<close>

fun parsePN_loop :: "nat \<Rightarrow> byte list \<Rightarrow> nat \<Rightarrow> nat \<Rightarrow> u64 \<Rightarrow> error + u64" where
  "parsePN_loop 0 data offset i pn = Inr pn"
| "parsePN_loop (Suc k) data offset i pn =
     (case index data (offset + i) of
        Inl e \<Rightarrow> Inl e
      | Inr b \<Rightarrow> parsePN_loop k data offset (i + 1) (push_bit 8 pn OR ucast b))"

text \<open>
  The tail shared by both header forms: the packet-number length from the low two bits
  of the first byte, its bounds check, the loop, and the final offset.
\<close>

definition parsePacketNumber :: "byte list \<Rightarrow> Header \<Rightarrow> byte \<Rightarrow> nat \<Rightarrow> error + (Header \<times> nat)" where
  "parsePacketNumber data header firstByte offset =
     (let pnLen = unat ((firstByte AND 0x03) + 1) in
      if offset + pnLen > length data then Inl ErrPacketNumberBounds
      else (case parsePN_loop pnLen data offset 0 0 of
              Inl e \<Rightarrow> Inl e
            | Inr pn \<Rightarrow> Inr (header\<lparr>PacketNumber := pn\<rparr>, offset + pnLen)))"

text \<open>
  \<open>parseLongHeader\<close> is one function in the source; the model names three of its
  parts.  \<open>parseToken\<close> is the \<open>case PacketTypeInitial\<close> branch of the \<open>switch\<close> (token
  length and token), \<open>parseLengthAndPN\<close> is the code after the \<open>switch\<close> (length field
  and packet number), and \<open>parseLongHeader_rest\<close> is the \<open>switch\<close> itself, with the
  early return for Retry.
\<close>

definition parseToken :: "byte list \<Rightarrow> Header \<Rightarrow> nat \<Rightarrow> error + (Header \<times> nat)" where
  "parseToken data header offset =
     (case slice_from data offset of
        Inl e \<Rightarrow> Inl e
      | Inr rest \<Rightarrow>
         (case parseVarint rest of
            Inl e \<Rightarrow> Inl (ErrTokenLength e)
          | Inr (tokenLen, n) \<Rightarrow>
              let offset = offset + n;
                  tokenEnd = go_add (int offset) (go_int tokenLen) in
              if tokenEnd > int (length data) then Inl ErrTokenBounds
              else (case make_bytes tokenLen of
                      Inl e \<Rightarrow> Inl e
                    | Inr token \<Rightarrow>
                       (case slice_int data (int offset) tokenEnd of
                          Inl e \<Rightarrow> Inl e
                        | Inr src \<Rightarrow>
                            Inr (header\<lparr>Token := copy_bytes token src\<rparr>, nat tokenEnd)))))"

definition parseLengthAndPN :: "byte list \<Rightarrow> Header \<Rightarrow> byte \<Rightarrow> nat \<Rightarrow> error + (Header \<times> nat)" where
  "parseLengthAndPN data header firstByte offset =
     (case slice_from data offset of
        Inl e \<Rightarrow> Inl e
      | Inr rest \<Rightarrow>
         (case parseVarint rest of
            Inl e \<Rightarrow> Inl (ErrLength e)
          | Inr (len, n) \<Rightarrow>
              parsePacketNumber data (header\<lparr>Length := len\<rparr>) firstByte (offset + n)))"

definition parseLongHeader_rest :: "byte list \<Rightarrow> Header \<Rightarrow> byte \<Rightarrow> nat \<Rightarrow> error + (Header \<times> nat)" where
  "parseLongHeader_rest data header firstByte offset =
     (if Type header = PacketTypeInitial then
        (case parseToken data header offset of
           Inl e \<Rightarrow> Inl e
         | Inr (header, offset) \<Rightarrow> parseLengthAndPN data header firstByte offset)
      else if Type header = PacketTypeRetry then Inr (header, offset)
      else parseLengthAndPN data header firstByte offset)"

definition parseLongHeader :: "byte list \<Rightarrow> Header \<Rightarrow> byte \<Rightarrow> error + (Header \<times> nat)" where
  "parseLongHeader data header firstByte =
     (let offset = 1;
          header = header\<lparr>Type := drop_bit 4 (firstByte AND 0x30)\<rparr> in
      if length data < 5 then Inl ErrLongHeaderTooShort
      else (case slice data offset (offset + 4) of
        Inl e \<Rightarrow> Inl e
      | Inr vb \<Rightarrow>
      (case BigEndian_Uint32 vb of
        Inl e \<Rightarrow> Inl e
      | Inr version \<Rightarrow>
          let header = header\<lparr>Version := version\<rparr>;
              offset = offset + 4 in
          if offset \<ge> length data then Inl ErrPacketTruncated
          else (case index data offset of
            Inl e \<Rightarrow> Inl e
          | Inr dl \<Rightarrow>
              let destConnIDLen = unat dl;
                  offset = offset + 1 in
              if offset + destConnIDLen > length data then Inl ErrDestConnIDBounds
              else (case slice data offset (offset + destConnIDLen) of
                Inl e \<Rightarrow> Inl e
              | Inr dst \<Rightarrow>
                  let header = header\<lparr>DestConnID := copy_bytes (replicate destConnIDLen 0) dst\<rparr>;
                      offset = offset + destConnIDLen in
                  if offset \<ge> length data then Inl ErrPacketTruncated
                  else (case index data offset of
                    Inl e \<Rightarrow> Inl e
                  | Inr sl \<Rightarrow>
                      let srcConnIDLen = unat sl;
                          offset = offset + 1 in
                      if offset + srcConnIDLen > length data then Inl ErrSrcConnIDBounds
                      else (case slice data offset (offset + srcConnIDLen) of
                        Inl e \<Rightarrow> Inl e
                      | Inr src \<Rightarrow>
                          parseLongHeader_rest data
                            (header\<lparr>SrcConnID := copy_bytes (replicate srcConnIDLen 0) src\<rparr>)
                            firstByte (offset + srcConnIDLen))))))))"

definition parseShortHeader :: "byte list \<Rightarrow> Header \<Rightarrow> byte \<Rightarrow> error + (Header \<times> nat)" where
  "parseShortHeader data header firstByte =
     (let header = header\<lparr>Type := PacketType1RTT\<rparr>;
          offset = 1;
          destConnIDLen = 8 in
      if offset + destConnIDLen > length data then Inl ErrDestConnIDBounds
      else (case slice data offset (offset + destConnIDLen) of
        Inl e \<Rightarrow> Inl e
      | Inr dst \<Rightarrow>
          parsePacketNumber data
            (header\<lparr>DestConnID := copy_bytes (replicate destConnIDLen 0) dst\<rparr>)
            firstByte (offset + destConnIDLen)))"

definition ParseHeader :: "byte list \<Rightarrow> error + (Header \<times> nat)" where
  "ParseHeader data =
     (if length data = 0 then Inl ErrEmptyPacket
      else (case index data 0 of
        Inl e \<Rightarrow> Inl e
      | Inr firstByte \<Rightarrow>
          let header = zero_Header\<lparr>IsLongHeader := (firstByte AND 0x80 \<noteq> 0)\<rparr> in
          if IsLongHeader header then parseLongHeader data header firstByte
          else parseShortHeader data header firstByte))"

section \<open>Frames (package packet, file of the frame codec)\<close>

type_synonym FrameType = u64

definition FrameTypePadding :: FrameType where "FrameTypePadding = 0x00"
definition FrameTypePing :: FrameType where "FrameTypePing = 0x01"
definition FrameTypeAck :: FrameType where "FrameTypeAck = 0x02"
definition FrameTypeAckECN :: FrameType where "FrameTypeAckECN = 0x03"
definition FrameTypeResetStream :: FrameType where "FrameTypeResetStream = 0x04"
definition FrameTypeStopSending :: FrameType where "FrameTypeStopSending = 0x05"
definition FrameTypeCrypto :: FrameType where "FrameTypeCrypto = 0x06"
definition FrameTypeNewToken :: FrameType where "FrameTypeNewToken = 0x07"
definition FrameTypeStream :: FrameType where "FrameTypeStream = 0x08"
definition FrameTypeMaxData :: FrameType where "FrameTypeMaxData = 0x10"
definition FrameTypeMaxStreamData :: FrameType where "FrameTypeMaxStreamData = 0x11"
definition FrameTypeMaxStreams :: FrameType where "FrameTypeMaxStreams = 0x12"
definition FrameTypeDataBlocked :: FrameType where "FrameTypeDataBlocked = 0x14"
definition FrameTypeStreamDataBlocked :: FrameType where "FrameTypeStreamDataBlocked = 0x15"
definition FrameTypeStreamsBlocked :: FrameType where "FrameTypeStreamsBlocked = 0x16"
definition FrameTypeNewConnectionID :: FrameType where "FrameTypeNewConnectionID = 0x18"
definition FrameTypeRetireConnectionID :: FrameType where "FrameTypeRetireConnectionID = 0x19"
definition FrameTypePathChallenge :: FrameType where "FrameTypePathChallenge = 0x1a"
definition FrameTypePathResponse :: FrameType where "FrameTypePathResponse = 0x1b"
definition FrameTypeConnectionClose :: FrameType where "FrameTypeConnectionClose = 0x1c"
definition FrameTypeConnectionCloseApp :: FrameType where "FrameTypeConnectionCloseApp = 0x1d"
definition FrameTypeHandshakeDone :: FrameType where "FrameTypeHandshakeDone = 0x1e"

text \<open>
  The \<open>Frame\<close> interface has six implementations in the source, one constructor each,
  with the fields in the order of the struct:
  \<open>AckRange{Gap, Length}\<close>;
  \<open>AckFrame{LargestAcked, AckDelay, AckRanges, ECTCount [3]uint64}\<close>;
  \<open>StreamFrame{StreamID, Offset, Data, Fin}\<close>; \<open>CryptoFrame{Offset, Data}\<close>;
  \<open>ConnectionCloseFrame{ErrorCode, FrameType, ReasonPhrase, IsAppError}\<close>; \<open>PingFrame{}\<close>;
  \<open>PaddingFrame{PaddingLength int}\<close>.
\<close>

datatype AckRange = AckRange u64 u64

datatype Frame =
    AckFrame u64 u64 "AckRange list" "u64 \<times> u64 \<times> u64"
  | StreamFrame u64 u64 "byte list" bool
  | CryptoFrame u64 "byte list"
  | ConnectionCloseFrame u64 u64 "byte list" bool
  | PingFrame
  | PaddingFrame int

text \<open>The method \<open>Type()\<close>.\<close>

fun Frame_Type :: "Frame \<Rightarrow> FrameType" where
  "Frame_Type (AckFrame largestAcked ackDelay ackRanges (ect0, ect1, ect2)) =
     (if ect0 > 0 \<or> ect1 > 0 \<or> ect2 > 0 then FrameTypeAckECN else FrameTypeAck)"
| "Frame_Type (StreamFrame streamID offset data fin) =
     (let frameType = FrameTypeStream;
          frameType = (if fin then frameType OR 0x01 else frameType);
          frameType = (if length data > 0 then frameType OR 0x02 else frameType);
          frameType = (if offset > 0 then frameType OR 0x04 else frameType)
      in frameType)"
| "Frame_Type (CryptoFrame offset data) = FrameTypeCrypto"
| "Frame_Type (ConnectionCloseFrame errorCode frameType reasonPhrase isAppError) =
     (if isAppError then FrameTypeConnectionCloseApp else FrameTypeConnectionClose)"
| "Frame_Type PingFrame = FrameTypePing"
| "Frame_Type (PaddingFrame paddingLength) = FrameTypePadding"

text \<open>The method \<open>Length()\<close>.\<close>

fun Frame_Length :: "Frame \<Rightarrow> int" where
  "Frame_Length (AckFrame largestAcked ackDelay ackRanges (ect0, ect1, ect2)) =
     1 + int (varintLen largestAcked) + int (varintLen ackDelay)
       + int (varintLen (of_nat (length ackRanges)))
       + (\<Sum>r\<leftarrow>ackRanges. case r of AckRange gap len \<Rightarrow> int (varintLen gap) + int (varintLen len))
       + (if Frame_Type (AckFrame largestAcked ackDelay ackRanges (ect0, ect1, ect2))
             = FrameTypeAckECN
          then int (varintLen ect0) + int (varintLen ect1) + int (varintLen ect2) else 0)"
| "Frame_Length (StreamFrame streamID offset data fin) =
     1 + int (varintLen streamID)
       + (if offset > 0 then int (varintLen offset) else 0)
       + (if length data > 0 then int (varintLen (of_nat (length data))) else 0)
       + int (length data)"
| "Frame_Length (CryptoFrame offset data) =
     1 + int (varintLen offset) + int (varintLen (of_nat (length data))) + int (length data)"
| "Frame_Length (ConnectionCloseFrame errorCode frameType reasonPhrase isAppError) =
     1 + int (varintLen errorCode)
       + (if \<not> isAppError then int (varintLen frameType) else 0)
       + int (varintLen (of_nat (length reasonPhrase))) + int (length reasonPhrase)"
| "Frame_Length PingFrame = 1"
| "Frame_Length (PaddingFrame paddingLength) = paddingLength"

subsection \<open>Serialization\<close>

text \<open>
  A \<open>Serialize\<close> method keeps a local \<open>offset\<close> and writes into \<open>buf\<close>; the pair of both
  is the state of a writer.  \<open>put v\<close> is the source's recurring step
  \<open>n, err = putVarint(buf[offset:], v); if err != nil { return 0, err }; offset += n\<close>,
  \<open>copy_data d\<close> is \<open>copy(buf[offset:], d); offset += len(d)\<close>, and \<open>seq\<close> runs writers
  one after the other, stopping at the first error.
\<close>

type_synonym wstate = "nat \<times> byte list"

definition put :: "u64 \<Rightarrow> wstate \<Rightarrow> error + wstate" where
  "put v = (\<lambda>(offset, buf).
     case slice_from buf offset of
       Inl e \<Rightarrow> Inl e
     | Inr sub \<Rightarrow>
        (case putVarint sub v of
           Inl e \<Rightarrow> Inl e
         | Inr (n, sub') \<Rightarrow> Inr (offset + n, take offset buf @ sub')))"

definition copy_data :: "byte list \<Rightarrow> wstate \<Rightarrow> error + wstate" where
  "copy_data d = (\<lambda>(offset, buf).
     case slice_from buf offset of
       Inl e \<Rightarrow> Inl e
     | Inr sub \<Rightarrow> Inr (offset + length d, take offset buf @ copy_bytes sub d))"

fun seq :: "(wstate \<Rightarrow> error + wstate) list \<Rightarrow> wstate \<Rightarrow> error + wstate" where
  "seq [] s = Inr s"
| "seq (w # ws) s = (case w s of Inl e \<Rightarrow> Inl e | Inr s' \<Rightarrow> seq ws s')"

text \<open>
  The loop of \<open>PaddingFrame.Serialize\<close>,
  \<open>for i := 0; i < f.PaddingLength && i < len(buf); i++ { buf[i] = 0x00 }\<close>, sets the
  first \<open>min(PaddingLength, len(buf))\<close> bytes to zero.
\<close>

definition zero_prefix :: "int \<Rightarrow> byte list \<Rightarrow> byte list" where
  "zero_prefix paddingLength buf =
     (let k = min (nat paddingLength) (length buf) in replicate k 0 @ drop k buf)"

text \<open>
  \<open>Serialize\<close> returns the number of bytes and the buffer after the writes.  The range
  loop of the ACK frame and its loop over the three ECN counters are the lists of their
  steps.
\<close>

fun Serialize :: "Frame \<Rightarrow> byte list \<Rightarrow> error + (int \<times> byte list)" where
  "Serialize (AckFrame largestAcked ackDelay ackRanges (ect0, ect1, ect2)) buf =
     (let f = AckFrame largestAcked ackDelay ackRanges (ect0, ect1, ect2) in
      case seq ([put (Frame_Type f), put largestAcked, put ackDelay,
                 put (of_nat (length ackRanges))]
                @ concat (map (\<lambda>r. case r of AckRange gap len \<Rightarrow> [put gap, put len]) ackRanges)
                @ (if Frame_Type f = FrameTypeAckECN then [put ect0, put ect1, put ect2] else []))
             (0, buf) of
        Inl e \<Rightarrow> Inl e
      | Inr (offset, buf') \<Rightarrow> Inr (int offset, buf'))"
| "Serialize (StreamFrame streamID offset data fin) buf =
     (let f = StreamFrame streamID offset data fin in
      case seq ([put (Frame_Type f), put streamID]
                @ (if offset > 0 then [put offset] else [])
                @ (if length data > 0 then [put (of_nat (length data))] else [])
                @ [copy_data data])
             (0, buf) of
        Inl e \<Rightarrow> Inl e
      | Inr (offset', buf') \<Rightarrow> Inr (int offset', buf'))"
| "Serialize (CryptoFrame offset data) buf =
     (case seq [put (Frame_Type (CryptoFrame offset data)), put offset,
                put (of_nat (length data)), copy_data data]
             (0, buf) of
        Inl e \<Rightarrow> Inl e
      | Inr (offset', buf') \<Rightarrow> Inr (int offset', buf'))"
| "Serialize (ConnectionCloseFrame errorCode frameType reasonPhrase isAppError) buf =
     (let f = ConnectionCloseFrame errorCode frameType reasonPhrase isAppError in
      case seq ([put (Frame_Type f), put errorCode]
                @ (if \<not> isAppError then [put frameType] else [])
                @ [put (of_nat (length reasonPhrase)), copy_data reasonPhrase])
             (0, buf) of
        Inl e \<Rightarrow> Inl e
      | Inr (offset, buf') \<Rightarrow> Inr (int offset, buf'))"
| "Serialize PingFrame buf =
     (case putVarint buf (Frame_Type PingFrame) of
        Inl e \<Rightarrow> Inl e
      | Inr (n, buf') \<Rightarrow> Inr (int n, buf'))"
| "Serialize (PaddingFrame paddingLength) buf =
     Inr (paddingLength, zero_prefix paddingLength buf)"

subsection \<open>Parsing\<close>

text \<open>
  \<open>getVarint\<close> is the recurring step of the parsers,
  \<open>v, n, err := parseVarint(data[offset:]); if err != nil { return nil, 0, err }; offset += n\<close>;
  it returns the value and the new offset.
\<close>

definition getVarint :: "byte list \<Rightarrow> nat \<Rightarrow> error + (u64 \<times> nat)" where
  "getVarint data offset =
     (case slice_from data offset of
        Inl e \<Rightarrow> Inl e
      | Inr rest \<Rightarrow>
         (case parseVarint rest of
            Inl e \<Rightarrow> Inl e
          | Inr (v, n) \<Rightarrow> Inr (v, offset + n)))"

text \<open>
  The tail shared by the STREAM, CRYPTO and CONNECTION_CLOSE parsers: the bounds check
  \<open>offset+int(length) > len(data)\<close> with its error, \<open>make([]byte, length)\<close>, the copy from
  \<open>data[offset:offset+int(length)]\<close>, and the new offset.
\<close>

definition getBytes :: "error \<Rightarrow> byte list \<Rightarrow> nat \<Rightarrow> u64 \<Rightarrow> error + (byte list \<times> nat)" where
  "getBytes bounds_error data offset len =
     (let end' = go_add (int offset) (go_int len) in
      if end' > int (length data) then Inl bounds_error
      else (case make_bytes len of
              Inl e \<Rightarrow> Inl e
            | Inr dst \<Rightarrow>
               (case slice_int data (int offset) end' of
                  Inl e \<Rightarrow> Inl e
                | Inr src \<Rightarrow> Inr (copy_bytes dst src, nat end'))))"

text \<open>
  \<open>parsePaddingFrame\<close>: the loop \<open>for i := offset; i < len(data) && data[i] == 0x00; i++\<close>
  walks the bytes from \<open>offset\<close> on and counts, starting from 1.
\<close>

fun parsePadding_loop :: "byte list \<Rightarrow> nat \<Rightarrow> nat" where
  "parsePadding_loop [] len = len"
| "parsePadding_loop (b # bs) len = (if b = 0x00 then parsePadding_loop bs (len + 1) else len)"

definition parsePaddingFrame :: "byte list \<Rightarrow> nat \<Rightarrow> error + (Frame \<times> int)" where
  "parsePaddingFrame data offset =
     (let len = parsePadding_loop (drop offset data) 1 in
      Inr (PaddingFrame (int len), int len))"

text \<open>
  \<open>make([]AckRange, rangeCount)\<close> and the range loop of \<open>parseAckFrame\<close>,
  \<open>for i := uint64(0); i < rangeCount; i++\<close>: the first argument counts the iterations
  that remain.  The assignment \<open>ackRanges[i] = \<dots>\<close> is in range, since \<open>i < rangeCount\<close>.
  \<open>make\<close> panics when the count does not fit an \<open>int\<close>; the limit of the allocator on
  the size of the slice, which depends on the platform, is not modelled.
\<close>

definition make_ranges :: "u64 \<Rightarrow> error + AckRange list" where
  "make_ranges n =
     (if go_int n < 0 then Inl PanicMakeSlice else Inr (replicate (unat n) (AckRange 0 0)))"

fun parseAckRanges_loop ::
  "nat \<Rightarrow> byte list \<Rightarrow> nat \<Rightarrow> nat \<Rightarrow> AckRange list \<Rightarrow> error + (AckRange list \<times> nat)" where
  "parseAckRanges_loop 0 data offset i ackRanges = Inr (ackRanges, offset)"
| "parseAckRanges_loop (Suc k) data offset i ackRanges =
     (case getVarint data offset of
        Inl e \<Rightarrow> Inl e
      | Inr (gap, offset) \<Rightarrow>
         (case getVarint data offset of
            Inl e \<Rightarrow> Inl e
          | Inr (len, offset) \<Rightarrow>
              parseAckRanges_loop k data offset (i + 1) (ackRanges[i := AckRange gap len])))"

definition parseAckFrame :: "byte list \<Rightarrow> nat \<Rightarrow> FrameType \<Rightarrow> error + (Frame \<times> int)" where
  "parseAckFrame data offset frameType =
     (let originalOffset = offset in
      case getVarint data offset of
        Inl e \<Rightarrow> Inl e
      | Inr (largestAcked, offset) \<Rightarrow>
      (case getVarint data offset of
        Inl e \<Rightarrow> Inl e
      | Inr (ackDelay, offset) \<Rightarrow>
      (case getVarint data offset of
        Inl e \<Rightarrow> Inl e
      | Inr (rangeCount, offset) \<Rightarrow>
      (case make_ranges rangeCount of
        Inl e \<Rightarrow> Inl e
      | Inr ackRanges \<Rightarrow>
      (case parseAckRanges_loop (unat rangeCount) data offset 0 ackRanges of
        Inl e \<Rightarrow> Inl e
      | Inr (ackRanges, offset) \<Rightarrow>
          if frameType = FrameTypeAckECN then
            (case getVarint data offset of
               Inl e \<Rightarrow> Inl e
             | Inr (ect0, offset) \<Rightarrow>
            (case getVarint data offset of
               Inl e \<Rightarrow> Inl e
             | Inr (ect1, offset) \<Rightarrow>
            (case getVarint data offset of
               Inl e \<Rightarrow> Inl e
             | Inr (ect2, offset) \<Rightarrow>
                 Inr (AckFrame largestAcked ackDelay ackRanges (ect0, ect1, ect2),
                      int offset - int originalOffset))))
          else Inr (AckFrame largestAcked ackDelay ackRanges (0, 0, 0),
                    int offset - int originalOffset))))))"

definition parseStreamFrame :: "byte list \<Rightarrow> nat \<Rightarrow> FrameType \<Rightarrow> error + (Frame \<times> int)" where
  "parseStreamFrame data offset frameType =
     (let originalOffset = offset in
      case getVarint data offset of
        Inl e \<Rightarrow> Inl e
      | Inr (streamID, offset) \<Rightarrow>
      (let fin = (frameType AND 0x01 \<noteq> 0) in
       case (if frameType AND 0x04 \<noteq> 0 then getVarint data offset else Inr (0, offset)) of
        Inl e \<Rightarrow> Inl e
      | Inr (streamOffset, offset) \<Rightarrow>
      (case (if frameType AND 0x02 \<noteq> 0 then getVarint data offset
             else Inr (of_nat (length data - offset), offset)) of
        Inl e \<Rightarrow> Inl e
      | Inr (dataLen, offset) \<Rightarrow>
      (case getBytes ErrStreamDataBounds data offset dataLen of
        Inl e \<Rightarrow> Inl e
      | Inr (frameData, offset) \<Rightarrow>
          Inr (StreamFrame streamID streamOffset frameData fin,
               int offset - int originalOffset)))))"

definition parseCryptoFrame :: "byte list \<Rightarrow> nat \<Rightarrow> error + (Frame \<times> int)" where
  "parseCryptoFrame data offset =
     (let originalOffset = offset in
      case getVarint data offset of
        Inl e \<Rightarrow> Inl e
      | Inr (cryptoOffset, offset) \<Rightarrow>
      (case getVarint data offset of
        Inl e \<Rightarrow> Inl e
      | Inr (len, offset) \<Rightarrow>
      (case getBytes ErrCryptoDataBounds data offset len of
        Inl e \<Rightarrow> Inl e
      | Inr (frameData, offset) \<Rightarrow>
          Inr (CryptoFrame cryptoOffset frameData, int offset - int originalOffset))))"

definition parseConnectionCloseFrame ::
  "byte list \<Rightarrow> nat \<Rightarrow> FrameType \<Rightarrow> error + (Frame \<times> int)" where
  "parseConnectionCloseFrame data offset frameType =
     (let originalOffset = offset in
      case getVarint data offset of
        Inl e \<Rightarrow> Inl e
      | Inr (errorCode, offset) \<Rightarrow>
      (let isAppError = (frameType = FrameTypeConnectionCloseApp) in
       case (if \<not> isAppError then getVarint data offset else Inr (0, offset)) of
        Inl e \<Rightarrow> Inl e
      | Inr (triggerFrameType, offset) \<Rightarrow>
      (case getVarint data offset of
        Inl e \<Rightarrow> Inl e
      | Inr (reasonLen, offset) \<Rightarrow>
      (case getBytes ErrReasonBounds data offset reasonLen of
        Inl e \<Rightarrow> Inl e
      | Inr (reasonPhrase, offset) \<Rightarrow>
          Inr (ConnectionCloseFrame errorCode triggerFrameType reasonPhrase isAppError,
               int offset - int originalOffset)))))"

definition ParseFrame :: "byte list \<Rightarrow> error + (Frame \<times> int)" where
  "ParseFrame data =
     (if length data = 0 then Inl ErrEmptyFrame
      else case parseVarint data of
        Inl e \<Rightarrow> Inl (ErrFrameType e)
      | Inr (frameType, n) \<Rightarrow>
          if frameType = FrameTypePadding then parsePaddingFrame data n
          else if frameType = FrameTypePing then Inr (PingFrame, int n)
          else if frameType = FrameTypeAck \<or> frameType = FrameTypeAckECN
            then parseAckFrame data n frameType
          else if frameType = FrameTypeCrypto then parseCryptoFrame data n
          else if frameType = FrameTypeConnectionClose
                  \<or> frameType = FrameTypeConnectionCloseApp
            then parseConnectionCloseFrame data n frameType
          else if frameType AND 0xF8 = 0x08 then parseStreamFrame data n frameType
          else Inl (ErrUnsupportedFrame frameType))"

section \<open>Streams (internal/stream/stream.go)\<close>

text \<open>
  A stream is a record of the fields of the Go struct, without \<open>createdAt\<close> and
  \<open>readBuffer\<close>, which no method modelled here reads, and without its mutexes and
  condition variables: every public method takes the locks it needs on entry, none of
  them takes a lock it already holds, and all are released on return, so between calls
  every lock is free.  The receive buffer, a Go map from offset to segment, is an association list
  with distinct keys; the code never depends on the map's iteration order (it sorts the
  keys, or visits all of them).
\<close>

datatype StreamType = StreamTypeBidirectional | StreamTypeUnidirectional

datatype StreamState =
  StateOpen | StateHalfClosedLocal | StateHalfClosedRemote | StateClosed | StateReset

text \<open>
  The error values of the stream methods: \<open>io.EOF\<close>, \<open>io.ErrClosedPipe\<close>, the error
  \<open>Reset\<close> stores (built from the error code and the reason), and the errors of
  \<open>ReceiveData\<close>, \<open>Write\<close> and the panic of \<open>make\<close> with a negative length.
\<close>

datatype stream_error =
    EOF
  | ErrClosedPipe
  | ErrStreamReset u64 string
  | ErrClosedOrReset
  | ErrFlowControl
  | ErrWriteOnReceiveStream
  | PanicNegativeLen

record StreamData =
  Offset :: u64
  Data :: "byte list"
  Fin :: bool

record Stream =
  id' :: u64
  streamType :: StreamType
  state :: StreamState
  sendBuffer :: "byte list"
  sendOffset :: u64
  sendFinished :: bool
  recvBuffer :: "(u64 \<times> StreamData) list"
  recvOffset :: u64
  recvFinished :: bool
  recvFinalOffset :: u64
  maxData :: u64
  sentData :: u64
  recvData :: u64
  resetError :: "stream_error option"

definition getStreamType :: "u64 \<Rightarrow> StreamType" where
  "getStreamType i =
     (if i AND 0x02 = 0 then StreamTypeBidirectional else StreamTypeUnidirectional)"

definition NewStream :: "u64 \<Rightarrow> u64 \<Rightarrow> Stream" where
  "NewStream i m =
     \<lparr>id' = i, streamType = getStreamType i, state = StateOpen, sendBuffer = [],
      sendOffset = 0, sendFinished = False, recvBuffer = [], recvOffset = 0,
      recvFinished = False, recvFinalOffset = 0, maxData = m, sentData = 0, recvData = 0,
      resetError = None\<rparr>"

definition setState :: "StreamState \<Rightarrow> Stream \<Rightarrow> Stream" where
  "setState st s = s\<lparr>state := st\<rparr>"

text \<open>
  \<open>getOrderedData\<close>: the keys are sorted, then the loop walks them from \<open>recvOffset\<close>;
  a key equal to the current offset appends its segment, a larger key is a gap and
  leaves the loop (\<open>break\<close>), a smaller key is skipped.  A lookup of a missing key would
  give the zero \<open>StreamData\<close>.
\<close>

definition zero_StreamData :: StreamData where
  "zero_StreamData = \<lparr>Offset = 0, Data = [], Fin = False\<rparr>"

definition lookup :: "(u64 \<times> StreamData) list \<Rightarrow> u64 \<Rightarrow> StreamData" where
  "lookup m k = (case map_of m k of None \<Rightarrow> zero_StreamData | Some sd \<Rightarrow> sd)"

fun getOrderedData_loop ::
  "(u64 \<times> StreamData) list \<Rightarrow> u64 list \<Rightarrow> u64 \<Rightarrow> byte list \<Rightarrow> byte list" where
  "getOrderedData_loop m [] currentOffset data = data"
| "getOrderedData_loop m (offset # offsets) currentOffset data =
     (if offset = currentOffset then
        (let streamData = lookup m offset in
         getOrderedData_loop m offsets
           (currentOffset + of_nat (length (Data streamData))) (data @ Data streamData))
      else if offset > currentOffset then data
      else getOrderedData_loop m offsets currentOffset data)"

definition getOrderedData :: "Stream \<Rightarrow> byte list" where
  "getOrderedData s =
     getOrderedData_loop (recvBuffer s) (sort (map fst (recvBuffer s))) (recvOffset s) []"

text \<open>
  \<open>consumeData\<close>: both counters advance by \<open>n\<close>, and every segment that ends at or
  before the new \<open>recvOffset\<close> is deleted.
\<close>

definition consumeData :: "nat \<Rightarrow> Stream \<Rightarrow> Stream" where
  "consumeData n s =
     (let consumed = of_nat n;
          s = s\<lparr>recvOffset := recvOffset s + consumed, recvData := recvData s + consumed\<rparr>
      in s\<lparr>recvBuffer :=
             filter (\<lambda>(offset, streamData).
                       \<not> offset + of_nat (length (Data streamData)) \<le> recvOffset s)
                    (recvBuffer s)\<rparr>)"

text \<open>
  \<open>Read\<close> is a loop around \<open>readCond.Wait()\<close>.  The model is one pass of the loop body
  on the current state: it returns \<open>n\<close> and the \<open>n\<close> bytes copied into \<open>p\<close>, or an error,
  or \<open>ReadWait\<close> when the pass reaches \<open>Wait\<close>, where the caller blocks until another
  method changes the stream and the pass is run again.  Only \<open>len(p)\<close> of the caller's
  buffer matters.
\<close>

datatype read_result = ReadOk nat "byte list" | ReadErr stream_error | ReadWait

definition Read :: "nat \<Rightarrow> Stream \<Rightarrow> read_result \<times> Stream" where
  "Read len_p s =
     (let st = state s in
      if st = StateClosed \<or> st = StateReset then
        (case resetError s of
           Some e \<Rightarrow> (ReadErr e, s)
         | None \<Rightarrow> (ReadErr EOF, s))
      else
        let data = getOrderedData s in
        if length data > 0 then
          (let n = min len_p (length data) in (ReadOk n (take n data), consumeData n s))
        else if st = StateHalfClosedRemote \<and> recvFinished s then (ReadErr EOF, s)
        else (ReadWait, s))"

definition canSend :: "Stream \<Rightarrow> bool" where
  "canSend s = True"

definition Write :: "byte list \<Rightarrow> Stream \<Rightarrow> (stream_error + nat) \<times> Stream" where
  "Write p s =
     (let st = state s in
      if st = StateClosed \<or> st = StateReset then
        (case resetError s of
           Some e \<Rightarrow> (Inl e, s)
         | None \<Rightarrow> (Inl ErrClosedPipe, s))
      else if st = StateHalfClosedLocal then (Inl ErrClosedPipe, s)
      else if streamType s = StreamTypeUnidirectional \<and> \<not> canSend s then
        (Inl ErrWriteOnReceiveStream, s)
      else
        (Inr (length p),
         s\<lparr>sendBuffer := sendBuffer s @ p, sentData := sentData s + of_nat (length p)\<rparr>))"

definition Close :: "Stream \<Rightarrow> Stream" where
  "Close s =
     (let st = state s in
      if st = StateClosed \<or> st = StateReset then s
      else
        let s = s\<lparr>sendFinished := True\<rparr> in
        if st = StateOpen then setState StateHalfClosedLocal s
        else if st = StateHalfClosedRemote then setState StateClosed s
        else s)"

definition Reset :: "u64 \<Rightarrow> string \<Rightarrow> Stream \<Rightarrow> Stream" where
  "Reset errorCode reason s =
     (setState StateReset s)\<lparr>resetError := Some (ErrStreamReset errorCode reason)\<rparr>"

definition ReceiveData :: "byte list \<Rightarrow> u64 \<Rightarrow> bool \<Rightarrow> Stream \<Rightarrow> stream_error option \<times> Stream" where
  "ReceiveData data offset fin s =
     (let st = state s in
      if st = StateClosed \<or> st = StateReset then (Some ErrClosedOrReset, s)
      else if offset + of_nat (length data) > maxData s then (Some ErrFlowControl, s)
      else
        let s = s\<lparr>recvBuffer :=
                    AList.update offset \<lparr>Offset = offset, Data = data, Fin = fin\<rparr>
                      (recvBuffer s)\<rparr>
        in if fin then
             (let s = s\<lparr>recvFinished := True,
                         recvFinalOffset := offset + of_nat (length data)\<rparr>
              in (None,
                  if st = StateOpen then setState StateHalfClosedRemote s
                  else if st = StateHalfClosedLocal then setState StateClosed s
                  else s))
           else (None, s))"

text \<open>
  \<open>GetSendData(maxSize int)\<close> returns the data, its offset and the FIN flag; \<open>make\<close> with
  a negative \<open>maxSize\<close> panics.
\<close>

definition GetSendData ::
  "int \<Rightarrow> Stream \<Rightarrow> (stream_error + (byte list \<times> u64 \<times> bool)) \<times> Stream" where
  "GetSendData maxSize s =
     (if length (sendBuffer s) = 0 \<and> \<not> sendFinished s then (Inr ([], 0, False), s)
      else
        let dataSize = (if int (length (sendBuffer s)) > maxSize then maxSize
                        else int (length (sendBuffer s)))
        in if dataSize < 0 then (Inl PanicNegativeLen, s)
           else
             let data = take (nat dataSize) (sendBuffer s);
                 offset = sendOffset s;
                 s = s\<lparr>sendOffset := sendOffset s + of_nat (nat dataSize),
                         sendBuffer := drop (nat dataSize) (sendBuffer s)\<rparr>;
                 fin = (sendFinished s \<and> length (sendBuffer s) = 0)
             in (Inr (data, offset, fin), s))"

text \<open>\<open>[]byte("...")\<close>: the bytes of a string literal.\<close>

definition bytes :: "string \<Rightarrow> byte list" where
  "bytes str = map (\<lambda>c. of_nat (of_char c)) str"

text \<open>
  The stream of the reassembly scenario: a fresh stream with id 4 and a limit of 1024
  bytes that has received \<open>"World"\<close> at offset 6, \<open>"Hello "\<close> at offset 0 and \<open>"!"\<close> at
  offset 11 with FIN, in this order.
\<close>

abbreviation (input) reassembly_stream :: Stream where
  "reassembly_stream \<equiv>
     snd (ReceiveData (bytes ''!'') 11 True
       (snd (ReceiveData (bytes ''Hello '') 0 False
         (snd (ReceiveData (bytes ''World'') 6 False (NewStream 4 1024))))))"

section \<open>CUBIC congestion control (internal/congestion)\<close>

subsection \<open>Floating point and time\<close>

text \<open>
  A finite \<open>float64\<close> is the rational number it denotes.  An arithmetic operation is
  the exact operation followed by \<open>round_double\<close>, IEEE-754 rounding to the nearest
  binary64 value with ties to even (53-bit significand, subnormals below \<open>2\<^sup>-\<^sup>1\<^sup>0\<^sup>2\<^sup>2\<close>);
  overflow to infinity is not modelled, the values of the controller stay far below it.
  \<open>ilog2 n\<close> is \<open>\<lfloor>log\<^sub>2 n\<rfloor>\<close> for \<open>n \<ge> 1\<close>, by halving until the value is below 2 (the
  boolean of \<open>ilog2_from\<close> is that test); \<open>floor_log2 x\<close> is \<open>\<lfloor>log\<^sub>2 x\<rfloor>\<close> for a positive
  rational.
\<close>

type_synonym float64 = rat

function ilog2_from :: "bool \<Rightarrow> int \<Rightarrow> int" where
  "ilog2_from True n = 0"
| "ilog2_from False n = 1 + ilog2_from (n div 2 < 2) (n div 2)"
  by pat_completeness auto
termination
  by (relation "measure (\<lambda>(b, n). if b then 0 else Suc (nat n))") auto

definition ilog2 :: "int \<Rightarrow> int" where
  "ilog2 n = ilog2_from (n < 2) n"

definition floor_log2 :: "rat \<Rightarrow> int" where
  "floor_log2 x =
     (if 1 \<le> x then ilog2 \<lfloor>x\<rfloor>
      else (let m = \<lceil>1 / x\<rceil> in - (if m \<le> 1 then 0 else 1 + ilog2 (m - 1))))"

definition pow2 :: "int \<Rightarrow> rat" where
  "pow2 e = (if 0 \<le> e then 2 ^ nat e else 1 / 2 ^ nat (- e))"

definition round_half_even :: "rat \<Rightarrow> int" where
  "round_half_even x =
     (let f = \<lfloor>x\<rfloor>; r = x - of_int f in
      if r < 1 / 2 then f else if 1 / 2 < r then f + 1 else if even f then f else f + 1)"

definition round_double :: "rat \<Rightarrow> float64" where
  "round_double x =
     (if x = 0 then 0
      else let a = \<bar>x\<bar>;
               e = max (floor_log2 a) (- 1022);
               ulp = pow2 (e - 52)
           in sgn x * of_int (round_half_even (a / ulp)) * ulp)"

text \<open>
  \<open>float64(v)\<close> for a \<open>uint64\<close>, the product of two \<open>float64\<close>, and \<open>uint64(f)\<close>, which
  truncates towards zero (the result for a value outside the range of \<open>uint64\<close> is
  implementation-defined in Go and differs between platforms; the model wraps, and
  nothing proved below converts such a value).
\<close>

definition float64_of_u64 :: "u64 \<Rightarrow> float64" where
  "float64_of_u64 v = round_double (of_int (uint v))"

definition fmul :: "float64 \<Rightarrow> float64 \<Rightarrow> float64" where
  "fmul a b = round_double (a * b)"

definition fsub :: "float64 \<Rightarrow> float64 \<Rightarrow> float64" where
  "fsub a b = round_double (a - b)"

definition fdiv :: "float64 \<Rightarrow> float64 \<Rightarrow> float64" where
  "fdiv a b = round_double (a / b)"

definition u64_of_float64 :: "float64 \<Rightarrow> u64" where
  "u64_of_float64 f = word_of_int (if 0 \<le> f then \<lfloor>f\<rfloor> else \<lceil>f\<rceil>)"

text \<open>
  A \<open>time.Time\<close> is a number of nanoseconds; the zero \<open>time.Time{}\<close> is \<open>0\<close>.  A
  \<open>time.Duration\<close> is an \<open>int64\<close> of nanoseconds.
\<close>

type_synonym Time = int
type_synonym Duration = int

subsection \<open>The mutex\<close>

text \<open>
  The controller has one \<open>sync.RWMutex\<close>, and \<open>OnPacketLost\<close> calls a method that locks
  it again, so the lock is part of the state.  A call is made by one goroutine; when it
  asks for a lock that the same call already holds in a conflicting mode, no other
  goroutine can release it and the call never returns: the result \<open>None\<close>.
  (\<open>sync.RWMutex\<close> is not reentrant: \<open>RLock\<close> blocks while the lock is held for
  writing, \<open>Lock\<close> blocks while it is held at all.)
\<close>

datatype RWMutex = Unlocked | WLocked | RLocked nat

definition Lock :: "RWMutex \<Rightarrow> RWMutex option" where
  "Lock m = (case m of Unlocked \<Rightarrow> Some WLocked | _ \<Rightarrow> None)"

definition Unlock :: "RWMutex \<Rightarrow> RWMutex" where
  "Unlock m = Unlocked"

definition RLock :: "RWMutex \<Rightarrow> RWMutex option" where
  "RLock m =
     (case m of Unlocked \<Rightarrow> Some (RLocked 1) | RLocked n \<Rightarrow> Some (RLocked (n + 1))
      | WLocked \<Rightarrow> None)"

definition RUnlock :: "RWMutex \<Rightarrow> RWMutex" where
  "RUnlock m = (case m of RLocked n \<Rightarrow> (if n \<le> 1 then Unlocked else RLocked (n - 1)) | _ \<Rightarrow> m)"

subsection \<open>The controller\<close>

datatype CubicState = SlowStart | CongestionAvoidance | FastRecovery

record CubicCongestionControl =
  mutex :: RWMutex
  maxDatagramSize :: u64
  initialCwnd :: u64
  minCwnd :: u64
  maxCwnd :: u64
  state :: CubicState
  congestionWindow :: u64
  slowStartThreshold :: u64
  bytesInFlight :: u64
  cubicC :: float64
  betaCubic :: float64
  wMax :: u64
  epochStart :: Time
  originPoint :: u64
  timeToOrigin :: float64
  lastMaxCwnd :: u64
  endOfRecovery :: u64
  recoveryStartTime :: Time
  packetsAcked :: u64
  packetsLost :: u64
  roundTripCount :: u64
  minRtt :: Duration
  smoothedRtt :: Duration
  largestAcked :: u64
  largestSentAtLastCutback :: u64
  lastCutbackExitedSlowstart :: bool

text \<open>
  The constants \<open>0.4\<close> and \<open>0.7\<close> are stored in \<open>float64\<close> fields, so they are rounded;
  \<open>math.MaxUint64\<close> is \<open>2\<^sup>6\<^sup>4 - 1\<close> and \<open>time.Hour\<close> is \<open>3600 * 10\<^sup>9\<close> nanoseconds.
\<close>

definition NewCubicCongestionControl :: "u64 \<Rightarrow> CubicCongestionControl" where
  "NewCubicCongestionControl mds =
     (let maxDatagramSize = (if mds = 0 then 1200 else mds);
          initialCwnd = 10 * maxDatagramSize
      in \<lparr>mutex = Unlocked,
          maxDatagramSize = maxDatagramSize,
          initialCwnd = initialCwnd,
          minCwnd = 2 * maxDatagramSize,
          maxCwnd = 1000 * maxDatagramSize,
          state = SlowStart,
          congestionWindow = initialCwnd,
          slowStartThreshold = - 1,
          bytesInFlight = 0,
          cubicC = round_double (4 / 10),
          betaCubic = round_double (7 / 10),
          wMax = 0,
          epochStart = 0,
          originPoint = 0,
          timeToOrigin = 0,
          lastMaxCwnd = 0,
          endOfRecovery = 0,
          recoveryStartTime = 0,
          packetsAcked = 0,
          packetsLost = 0,
          roundTripCount = 0,
          minRtt = 3600000000000,
          smoothedRtt = 0,
          largestAcked = 0,
          largestSentAtLastCutback = 0,
          lastCutbackExitedSlowstart = False\<rparr>)"

text \<open>
  The methods take the controller as their last argument and return \<open>None\<close> when the
  call never returns.  \<open>locked\<close> runs a body between \<open>c.mutex.Lock()\<close> and the deferred
  \<open>c.mutex.Unlock()\<close>, \<open>rlocked\<close> between \<open>RLock\<close> and \<open>RUnlock\<close>.
\<close>

definition locked ::
  "(CubicCongestionControl \<Rightarrow> ('a \<times> CubicCongestionControl) option) \<Rightarrow>
   CubicCongestionControl \<Rightarrow> ('a \<times> CubicCongestionControl) option" where
  "locked body c =
     (case Lock (mutex c) of
        None \<Rightarrow> None
      | Some m \<Rightarrow>
          (case body (c\<lparr>mutex := m\<rparr>) of
             None \<Rightarrow> None
           | Some (r, c') \<Rightarrow> Some (r, c'\<lparr>mutex := Unlock (mutex c')\<rparr>)))"

definition rlocked ::
  "(CubicCongestionControl \<Rightarrow> 'a) \<Rightarrow> CubicCongestionControl \<Rightarrow>
   ('a \<times> CubicCongestionControl) option" where
  "rlocked body c =
     (case RLock (mutex c) of
        None \<Rightarrow> None
      | Some m \<Rightarrow> Some (body (c\<lparr>mutex := m\<rparr>), c\<lparr>mutex := RUnlock m\<rparr>))"

definition OnPacketSent ::
  "Time \<Rightarrow> u64 \<Rightarrow> u64 \<Rightarrow> u64 \<Rightarrow> bool \<Rightarrow> CubicCongestionControl \<Rightarrow>
   (unit \<times> CubicCongestionControl) option" where
  "OnPacketSent sentTime bytesInFlight' packetNumber bytes' isRetransmittable =
     locked (\<lambda>c. Some ((), if isRetransmittable then c\<lparr>bytesInFlight := bytesInFlight'\<rparr> else c))"

definition CanSend :: "u64 \<Rightarrow> CubicCongestionControl \<Rightarrow> (bool \<times> CubicCongestionControl) option" where
  "CanSend bytesInFlight' = rlocked (\<lambda>c. bytesInFlight' < congestionWindow c)"

definition GetCongestionWindow :: "CubicCongestionControl \<Rightarrow> (u64 \<times> CubicCongestionControl) option" where
  "GetCongestionWindow = rlocked (\<lambda>c. congestionWindow c)"

definition InSlowStart :: "CubicCongestionControl \<Rightarrow> (bool \<times> CubicCongestionControl) option" where
  "InSlowStart = rlocked (\<lambda>c. state c = SlowStart)"

definition InRecovery :: "CubicCongestionControl \<Rightarrow> (bool \<times> CubicCongestionControl) option" where
  "InRecovery = rlocked (\<lambda>c. state c = FastRecovery)"

definition isCwndLimitedLocked :: "u64 \<Rightarrow> CubicCongestionControl \<Rightarrow> bool" where
  "isCwndLimitedLocked priorInFlight c =
     (let congestionWindow' = congestionWindow c in
      if state c = SlowStart then priorInFlight \<ge> congestionWindow' div 2
      else priorInFlight \<ge> congestionWindow' - maxDatagramSize c)"

definition computeNewWMax :: "CubicCongestionControl \<Rightarrow> CubicCongestionControl" where
  "computeNewWMax c =
     (if congestionWindow c < lastMaxCwnd c then
        c\<lparr>lastMaxCwnd :=
            u64_of_float64
              (fdiv (fmul (float64_of_u64 (congestionWindow c)) (fsub 2 (betaCubic c))) 2)\<rparr>
      else c\<lparr>lastMaxCwnd := congestionWindow c\<rparr>)"

text \<open>
  \<open>cubicCongestionAvoidance\<close> computes with \<open>math.Cbrt\<close> and \<open>math.Pow\<close>, which have no
  rational model; the two library functions are parameters.  \<open>Sub\<close> is
  \<open>Time.Sub\<close>, which saturates at the range of \<open>int64\<close>, \<open>Seconds\<close> is
  \<open>Duration.Seconds\<close> (Go's integer division truncates towards zero).  Every
  floating-point operation is rounded on its own.
\<close>

definition Sub :: "Time \<Rightarrow> Time \<Rightarrow> Duration" where
  "Sub t u = max (- (2 ^ 63)) (min (2 ^ 63 - 1) (t - u))"

definition Seconds :: "Duration \<Rightarrow> float64" where
  "Seconds d =
     (let sec = sgn d * (\<bar>d\<bar> div 1000000000);
          nsec = sgn d * (\<bar>d\<bar> mod 1000000000)
      in round_double (round_double (of_int sec)
           + fdiv (round_double (of_int nsec)) (round_double 1000000000)))"

definition cubicCongestionAvoidance ::
  "(float64 \<Rightarrow> float64) \<Rightarrow> (float64 \<Rightarrow> float64 \<Rightarrow> float64) \<Rightarrow> Time \<Rightarrow>
   CubicCongestionControl \<Rightarrow> CubicCongestionControl" where
  "cubicCongestionAvoidance cbrt pow eventTime c =
     (let c = (if epochStart c = 0 then
                 (let c = computeNewWMax (c\<lparr>epochStart := eventTime\<rparr>) in
                  if lastMaxCwnd c \<le> congestionWindow c then
                    c\<lparr>timeToOrigin := 0, originPoint := congestionWindow c\<rparr>
                  else
                    c\<lparr>timeToOrigin :=
                         cbrt (fdiv (float64_of_u64 (lastMaxCwnd c - congestionWindow c))
                                 (cubicC c)),
                       originPoint := lastMaxCwnd c\<rparr>)
               else c);
          t = Seconds (Sub eventTime (epochStart c));
          target = round_double (fmul (cubicC c) (pow (fsub t (timeToOrigin c)) 3)
                                 + float64_of_u64 (originPoint c))
      in if target > float64_of_u64 (congestionWindow c) then
           (let cwndIncrement = u64_of_float64 target - congestionWindow c;
                cwndIncrement = (if cwndIncrement > maxDatagramSize c then maxDatagramSize c
                                 else cwndIncrement)
            in c\<lparr>congestionWindow := congestionWindow c + cwndIncrement\<rparr>)
         else c)"

definition maybeIncreaseCwndLocked ::
  "(float64 \<Rightarrow> float64) \<Rightarrow> (float64 \<Rightarrow> float64 \<Rightarrow> float64) \<Rightarrow> u64 \<Rightarrow> u64 \<Rightarrow> Time \<Rightarrow>
   CubicCongestionControl \<Rightarrow> CubicCongestionControl" where
  "maybeIncreaseCwndLocked cbrt pow ackedBytes priorInFlight eventTime c =
     (if \<not> isCwndLimitedLocked priorInFlight c then c
      else
        let c = (if state c = SlowStart then
                   (let c = c\<lparr>congestionWindow := congestionWindow c + ackedBytes\<rparr> in
                    if congestionWindow c \<ge> slowStartThreshold c then
                      c\<lparr>state := CongestionAvoidance, epochStart := 0\<rparr>
                    else c)
                 else cubicCongestionAvoidance cbrt pow eventTime c)
        in if congestionWindow c > maxCwnd c then c\<lparr>congestionWindow := maxCwnd c\<rparr> else c)"

definition OnAck ::
  "(float64 \<Rightarrow> float64) \<Rightarrow> (float64 \<Rightarrow> float64 \<Rightarrow> float64) \<Rightarrow> u64 \<Rightarrow> u64 \<Rightarrow> u64 \<Rightarrow> Time \<Rightarrow>
   CubicCongestionControl \<Rightarrow> (bool \<times> CubicCongestionControl) option" where
  "OnAck cbrt pow ackedPacketNumber ackedBytes priorInFlight eventTime =
     locked (\<lambda>c.
       let c = c\<lparr>packetsAcked := packetsAcked c + 1,
                  bytesInFlight := priorInFlight - ackedBytes\<rparr>;
           c = (if ackedPacketNumber > largestAcked c
                then c\<lparr>largestAcked := ackedPacketNumber\<rparr> else c);
           priorInRecovery = (state c = FastRecovery);
           c = (if priorInRecovery \<and> ackedPacketNumber > endOfRecovery c
                then c\<lparr>state := CongestionAvoidance, endOfRecovery := 0\<rparr> else c);
           inRecovery = (state c = FastRecovery);
           c = (if \<not> inRecovery
                then maybeIncreaseCwndLocked cbrt pow ackedBytes priorInFlight eventTime c
                else c)
       in Some (priorInRecovery \<and> \<not> inRecovery, c))"

text \<open>\<open>now\<close> is the value \<open>time.Now()\<close> returns inside \<open>enterRecoveryLocked\<close>.\<close>

definition enterRecoveryLocked :: "Time \<Rightarrow> u64 \<Rightarrow> CubicCongestionControl \<Rightarrow> CubicCongestionControl" where
  "enterRecoveryLocked now packetNumber c =
     c\<lparr>state := FastRecovery, endOfRecovery := largestAcked c, recoveryStartTime := now\<rparr>"

definition reduceCongestionWindow :: "CubicCongestionControl \<Rightarrow> CubicCongestionControl" where
  "reduceCongestionWindow c =
     (let c = c\<lparr>lastMaxCwnd := congestionWindow c\<rparr>;
          c = c\<lparr>wMax := congestionWindow c\<rparr>;
          c = c\<lparr>congestionWindow :=
                  u64_of_float64 (fmul (float64_of_u64 (congestionWindow c)) (betaCubic c))\<rparr>;
          c = (if congestionWindow c < minCwnd c then c\<lparr>congestionWindow := minCwnd c\<rparr>
               else c)
      in c\<lparr>slowStartThreshold := congestionWindow c\<rparr>)"

text \<open>
  \<open>OnPacketLost\<close> holds the write lock when it evaluates \<open>c.InRecovery()\<close>, the public
  method that takes the read lock.
\<close>

definition OnPacketLost ::
  "Time \<Rightarrow> u64 \<Rightarrow> u64 \<Rightarrow> u64 \<Rightarrow> CubicCongestionControl \<Rightarrow>
   (unit \<times> CubicCongestionControl) option" where
  "OnPacketLost now packetNumber lostBytes priorInFlight =
     locked (\<lambda>c.
       let c = c\<lparr>packetsLost := packetsLost c + 1,
                  bytesInFlight := priorInFlight - lostBytes\<rparr>
       in case InRecovery c of
            None \<Rightarrow> None
          | Some (inRecovery, c) \<Rightarrow>
              if inRecovery then Some ((), c)
              else Some ((), reduceCongestionWindow (enterRecoveryLocked now packetNumber c)))"




section \<open>Payloads and wire images of frames\<close>

text \<open>
  A value fits a varint when it is below \<open>2\<^sup>6\<^sup>2\<close>.  A frame of one of the six implemented
  kinds has a sensible payload when every integer that is written as a varint fits
  (lengths of byte strings and of the range list included), a CONNECTION_CLOSE of the
  application variant has the frame-type field 0 (the field is not on the wire), and a
  PADDING frame has at least one byte.
\<close>

definition varint_ok :: "u64 \<Rightarrow> bool" where
  "varint_ok v = (v \<le> 0x3FFFFFFFFFFFFFFF)"

fun sensible :: "Frame \<Rightarrow> bool" where
  "sensible (AckFrame la ad rs (e0, e1, e2)) =
     (varint_ok la \<and> varint_ok ad \<and> length rs < 2 ^ 62 \<and>
      list_all (\<lambda>r. case r of AckRange g l \<Rightarrow> varint_ok g \<and> varint_ok l) rs \<and>
      varint_ok e0 \<and> varint_ok e1 \<and> varint_ok e2)"
| "sensible (StreamFrame sid off d fin) =
     (varint_ok sid \<and> varint_ok off \<and> length d < 2 ^ 62)"
| "sensible (CryptoFrame off d) = (varint_ok off \<and> length d < 2 ^ 62)"
| "sensible (ConnectionCloseFrame ec ft reason app) =
     (varint_ok ec \<and> varint_ok ft \<and> length reason < 2 ^ 62 \<and> (if app then ft = 0 else True))"
| "sensible PingFrame = True"
| "sensible (PaddingFrame n) = (1 \<le> n)"

text \<open>
  The number of bytes \<open>ParseFrame\<close> reports for a frame of \<open>n\<close> bytes: the parsers of
  PADDING and PING count the type byte, the others return \<open>offset - originalOffset\<close>,
  which does not.
\<close>

fun reported_length :: "Frame \<Rightarrow> int \<Rightarrow> int" where
  "reported_length PingFrame n = n"
| "reported_length (PaddingFrame k) n = n"
| "reported_length f n = n - 1"

text \<open>
  The wire image of a frame, field by field; \<open>Serialize_bytes\<close> below shows that it is
  what \<open>Serialize\<close> writes.  \<open>writes w bs\<close> says that the writer \<open>w\<close>, given room, writes
  exactly \<open>bs\<close> at the offset and advances the offset by their number.
\<close>

fun range_bytes :: "AckRange \<Rightarrow> byte list" where
  "range_bytes (AckRange g l) = varint_bytes g @ varint_bytes l"

fun frame_bytes :: "Frame \<Rightarrow> byte list" where
  "frame_bytes (AckFrame la ad rs (e0, e1, e2)) =
     varint_bytes (Frame_Type (AckFrame la ad rs (e0, e1, e2))) @ varint_bytes la
     @ varint_bytes ad @ varint_bytes (of_nat (length rs)) @ concat (map range_bytes rs)
     @ (if Frame_Type (AckFrame la ad rs (e0, e1, e2)) = FrameTypeAckECN
        then varint_bytes e0 @ varint_bytes e1 @ varint_bytes e2 else [])"
| "frame_bytes (StreamFrame sid off d fin) =
     varint_bytes (Frame_Type (StreamFrame sid off d fin)) @ varint_bytes sid
     @ (if off > 0 then varint_bytes off else [])
     @ (if length d > 0 then varint_bytes (of_nat (length d)) else []) @ d"
| "frame_bytes (CryptoFrame off d) =
     varint_bytes FrameTypeCrypto @ varint_bytes off @ varint_bytes (of_nat (length d)) @ d"
| "frame_bytes (ConnectionCloseFrame ec ft reason app) =
     varint_bytes (Frame_Type (ConnectionCloseFrame ec ft reason app)) @ varint_bytes ec
     @ (if \<not> app then varint_bytes ft else [])
     @ varint_bytes (of_nat (length reason)) @ reason"
| "frame_bytes PingFrame = varint_bytes FrameTypePing"
| "frame_bytes (PaddingFrame n) = replicate (nat n) 0"

definition writes :: "(wstate \<Rightarrow> error + wstate) \<Rightarrow> byte list \<Rightarrow> bool" where
  "writes w bs =
     (\<forall>offset buf. offset + length bs \<le> length buf \<longrightarrow>
        w (offset, buf)
          = Inr (offset + length bs, take offset buf @ bs @ drop (offset + length bs) buf))"

text \<open>
  \<open>suffix_at data offset bs\<close>: the bytes of \<open>data\<close> from \<open>offset\<close> on are \<open>bs\<close>.
\<close>

definition suffix_at :: "byte list \<Rightarrow> nat \<Rightarrow> byte list \<Rightarrow> bool" where
  "suffix_at data offset bs = (offset \<le> length data \<and> drop offset data = bs)"

section \<open>Varint codec: the encoder and the decoder are inverse\<close>

text \<open>Bits of the constants the codec masks with.\<close>

lemma bit_0xC0: "bit (0xC0 :: int) n \<longleftrightarrow> n = 6 \<or> n = 7"
proof -
  have e: "(0xC0 :: int) = push_bit 6 (mask 2)" by (simp add: mask_eq_exp_minus_1)
  show ?thesis unfolding e by (simp only: bit_push_bit_iff bit_mask_iff possible_bit_int) auto
qed
lemma bit_0x3F: "bit (0x3F :: int) n \<longleftrightarrow> n < 6"
proof -
  have e: "(0x3F :: int) = mask 6" by (simp add: mask_eq_exp_minus_1)
  show ?thesis unfolding e by (simp only: bit_push_bit_iff bit_mask_iff possible_bit_int) auto
qed
lemma bit_0x40: "bit (0x40 :: int) n \<longleftrightarrow> n = 6"
proof -
  have e: "(0x40 :: int) = 2 ^ 6" by simp
  show ?thesis unfolding e by (simp only: bit_exp_iff possible_bit_int) auto
qed
lemma bit_0x80: "bit (0x80 :: int) n \<longleftrightarrow> n = 7"
proof -
  have e: "(0x80 :: int) = 2 ^ 7" by simp
  show ?thesis unfolding e by (simp only: bit_exp_iff possible_bit_int) auto
qed
lemma bit_0x03: "bit (3 :: int) n \<longleftrightarrow> n < 2" 
proof -
  have e: "(3 :: int) = mask 2" by (simp add: mask_eq_exp_minus_1)
  show ?thesis unfolding e by (simp only: bit_push_bit_iff bit_mask_iff possible_bit_int) auto
qed

lemmas const_bits = bit_0xC0 bit_0x3F bit_0x40 bit_0x80 bit_0x03

lemma take_bit_6_id: "v \<le> 0x3F \<Longrightarrow> take_bit 6 v = (v::u64)"
  unfolding take_bit_eq_mask by (rule less_mask_eq) (simp add: word_le_nat_alt word_less_nat_alt) 
lemma take_bit_14_id: "v \<le> 0x3FFF \<Longrightarrow> take_bit 14 v = (v::u64)"
  unfolding take_bit_eq_mask by (rule less_mask_eq) (simp add: word_le_nat_alt word_less_nat_alt) 
lemma take_bit_30_id: "v \<le> 0x3FFFFFFF \<Longrightarrow> take_bit 30 v = (v::u64)"
  unfolding take_bit_eq_mask by (rule less_mask_eq) (simp add: word_le_nat_alt word_less_nat_alt) 
lemma take_bit_62_id: "v \<le> 0x3FFFFFFFFFFFFFFF \<Longrightarrow> take_bit 62 v = (v::u64)"
  unfolding take_bit_eq_mask by (rule less_mask_eq) (simp add: word_le_nat_alt word_less_nat_alt) 

lemma form1_length: "drop_bit 6 ((ucast (take_bit 6 (v::u64)) :: byte) AND 0xC0) = 0"
  by (rule bit_word_eqI) (auto simp add: bit_simps const_bits)

lemma form1_value: "ucast ((ucast (take_bit 6 (v::u64)) :: byte) AND 0x3F) = take_bit 6 v"
  by (rule bit_word_eqI) (auto simp add: bit_simps const_bits)

lemma form2_length: "drop_bit 6 ((ucast (drop_bit 8 (take_bit 14 (v::u64)) OR 0x40) :: byte) AND 0xC0) = 1"
  by (rule bit_word_eqI) (auto simp add: bit_simps const_bits)

lemma form2_value: "push_bit 8 (ucast ((ucast (drop_bit 8 (take_bit 14 (v::u64)) OR 0x40) :: byte) AND 0x3F)) OR ucast (ucast (take_bit 14 v) :: byte) = take_bit 14 v"
  by (rule bit_word_eqI) (auto simp add: bit_simps const_bits)

lemma form4_length: "drop_bit 6 ((ucast (drop_bit 24 (take_bit 30 (v::u64)) OR 0x80) :: byte) AND 0xC0) = 2"
  by (rule bit_word_eqI) (auto simp add: bit_simps const_bits)

lemma form8_length: "drop_bit 6 ((ucast (drop_bit 56 (take_bit 62 (v::u64)) OR 0xC0) :: byte) AND 0xC0) = 3"
  by (rule bit_word_eqI) (auto simp add: bit_simps const_bits)


lemma low_byte_step: "push_bit 8 (drop_bit (k + 8) w) OR ucast (ucast (drop_bit k w) :: byte) = drop_bit k (w::u64)"
  by (rule bit_word_eqI) (auto simp add: bit_simps add.commute)

lemma low_byte_step0: "push_bit 8 (drop_bit 8 w) OR ucast (ucast w :: byte) = (w::u64)"
  using low_byte_step[of 0 w] by simp

lemma form2_first: "ucast ((ucast (drop_bit 8 (take_bit 14 (v::u64)) OR 0x40) :: byte) AND 0x3F) = drop_bit 8 (take_bit 14 v)"
  by (rule bit_word_eqI) (auto simp add: bit_simps const_bits)
lemma form4_first: "ucast ((ucast (drop_bit 24 (take_bit 30 (v::u64)) OR 0x80) :: byte) AND 0x3F) = drop_bit 24 (take_bit 30 v)"
  by (rule bit_word_eqI) (auto simp add: bit_simps const_bits)
lemma form8_first: "ucast ((ucast (drop_bit 56 (take_bit 62 (v::u64)) OR 0xC0) :: byte) AND 0x3F) = drop_bit 56 (take_bit 62 v)"
  by (rule bit_word_eqI) (auto simp add: bit_simps const_bits)

lemma form4_value: "push_bit 8 (push_bit 8 (push_bit 8 (ucast ((ucast (drop_bit 24 (take_bit 30 (v::u64)) OR 0x80) :: byte) AND 0x3F)) 
   OR ucast (ucast (drop_bit 16 (take_bit 30 v)) :: byte)) OR ucast (ucast (drop_bit 8 (take_bit 30 v)) :: byte)) OR ucast (ucast (take_bit 30 v) :: byte) = take_bit 30 v"
  by (simp only: form4_first low_byte_step[of 16, simplified] low_byte_step[of 8, simplified] low_byte_step0)

lemma form8_value: "push_bit 8 (push_bit 8 (push_bit 8 (push_bit 8 (push_bit 8 (push_bit 8 (push_bit 8 (ucast ((ucast (drop_bit 56 (take_bit 62 (v::u64)) OR 0xC0) :: byte) AND 0x3F)) 
   OR ucast (ucast (drop_bit 48 (take_bit 62 v)) :: byte)) 
   OR ucast (ucast (drop_bit 40 (take_bit 62 v)) :: byte)) 
   OR ucast (ucast (drop_bit 32 (take_bit 62 v)) :: byte)) 
   OR ucast (ucast (drop_bit 24 (take_bit 62 v)) :: byte)) 
   OR ucast (ucast (drop_bit 16 (take_bit 62 v)) :: byte)) 
   OR ucast (ucast (drop_bit 8 (take_bit 62 v)) :: byte)) OR ucast (ucast (take_bit 62 v) :: byte) = take_bit 62 v"
  by (simp only: form8_first low_byte_step[of 48, simplified] low_byte_step[of 40, simplified] low_byte_step[of 32, simplified] low_byte_step[of 24, simplified] low_byte_step[of 16, simplified] low_byte_step[of 8, simplified] low_byte_step0)

lemma parseVarint_loop_numeral:
  "parseVarint_loop (numeral k) data i v =
     (case index data i of
        Inl e \<Rightarrow> Inl e
      | Inr b \<Rightarrow>
          parseVarint_loop (pred_numeral k) data (i + 1)
            (if i = 0 then ucast (b AND 0x3F) else push_bit 8 v OR ucast b))"
  by (simp add: numeral_eq_Suc)

lemma parseVarint_form1:
  assumes "drop_bit 6 (b0 AND 0xC0) = 0"
  shows "parseVarint (b0 # rest) = Inr (ucast (b0 AND 0x3F), 1)"
  using assms by (simp add: parseVarint_def index_def)

lemma parseVarint_form2:
  assumes "drop_bit 6 (b0 AND 0xC0) = 1"
  shows "parseVarint (b0 # b1 # rest) = Inr (push_bit 8 (ucast (b0 AND 0x3F)) OR ucast b1, 2)"
  using assms by (simp add: parseVarint_def index_def parseVarint_loop_numeral)

lemma parseVarint_form4:
  assumes "drop_bit 6 (b0 AND 0xC0) = 2"
  shows "parseVarint (b0 # b1 # b2 # b3 # rest) =
     Inr (push_bit 8 (push_bit 8 (push_bit 8 (ucast (b0 AND 0x3F)) OR ucast b1) OR ucast b2) OR ucast b3, 4)"
  using assms by (simp add: parseVarint_def index_def parseVarint_loop_numeral)

lemma parseVarint_form8:
  assumes "drop_bit 6 (b0 AND 0xC0) = 3"
  shows "parseVarint (b0 # b1 # b2 # b3 # b4 # b5 # b6 # b7 # rest) =
     Inr (push_bit 8 (push_bit 8 (push_bit 8 (push_bit 8 (push_bit 8 (push_bit 8 (push_bit 8
       (ucast (b0 AND 0x3F)) OR ucast b1) OR ucast b2) OR ucast b3) OR ucast b4) OR ucast b5)
         OR ucast b6) OR ucast b7, 8)"
  using assms by (simp add: parseVarint_def index_def parseVarint_loop_numeral)

lemma parseVarint_bytes:
  assumes "v \<le> 0x3FFFFFFFFFFFFFFF"
  shows "parseVarint (varint_bytes v @ rest) = Inr (v, varintLen v)"
proof -
  consider (a) "v \<le> 0x3F" | (b) "\<not> v \<le> 0x3F" "v \<le> 0x3FFF"
    | (c) "\<not> v \<le> 0x3F" "\<not> v \<le> 0x3FFF" "v \<le> 0x3FFFFFFF"
    | (d) "\<not> v \<le> 0x3F" "\<not> v \<le> 0x3FFF" "\<not> v \<le> 0x3FFFFFFF"
    by blast
  then show ?thesis
  proof cases
    case a
    have "parseVarint (ucast (take_bit 6 v) # rest) = Inr (take_bit 6 v, 1)"
      by (simp only: parseVarint_form1 [OF form1_length] form1_value)
    with a show ?thesis by (simp add: varint_bytes_def varintLen_def take_bit_6_id)
  next
    case b
    have "parseVarint (ucast (drop_bit 8 (take_bit 14 v) OR 0x40) # ucast (take_bit 14 v) # rest)
            = Inr (take_bit 14 v, 2)"
      by (simp only: parseVarint_form2 [OF form2_length] form2_value)
    with b show ?thesis by (simp add: varint_bytes_def varintLen_def take_bit_14_id)
  next
    case c
    have "parseVarint (ucast (drop_bit 24 (take_bit 30 v) OR 0x80) # ucast (drop_bit 16 (take_bit 30 v))
             # ucast (drop_bit 8 (take_bit 30 v)) # ucast (take_bit 30 v) # rest)
            = Inr (take_bit 30 v, 4)"
      by (simp only: parseVarint_form4 [OF form4_length] form4_value)
    with c show ?thesis by (simp add: varint_bytes_def varintLen_def take_bit_30_id)
  next
    case d
    have "parseVarint (ucast (drop_bit 56 (take_bit 62 v) OR 0xC0) # ucast (drop_bit 48 (take_bit 62 v))
             # ucast (drop_bit 40 (take_bit 62 v)) # ucast (drop_bit 32 (take_bit 62 v))
             # ucast (drop_bit 24 (take_bit 62 v)) # ucast (drop_bit 16 (take_bit 62 v))
             # ucast (drop_bit 8 (take_bit 62 v)) # ucast (take_bit 62 v) # rest)
            = Inr (take_bit 62 v, 8)"
      by (simp only: parseVarint_form8 [OF form8_length] form8_value)
    with d assms show ?thesis by (simp add: varint_bytes_def varintLen_def take_bit_62_id)
  qed
qed

lemma length_varint_bytes: "length (varint_bytes v) = varintLen v"
  by (simp add: varint_bytes_def varintLen_def)


lemma list_update_numeral:
  "list_update (x # xs) (numeral k) y = x # list_update xs (pred_numeral k) y"
  by (simp add: numeral_eq_Suc)

lemma list_split2: "2 \<le> length buf \<Longrightarrow> \<exists>a b r. buf = a # b # r"
  by (auto simp add: Suc_le_length_iff numeral_eq_Suc)
lemma list_split4: "4 \<le> length buf \<Longrightarrow> \<exists>a b c d r. buf = a # b # c # d # r"
  by (auto simp add: Suc_le_length_iff numeral_eq_Suc)
lemma list_split8: "8 \<le> length buf \<Longrightarrow> \<exists>a b c d e f g h r. buf = a # b # c # d # e # f # g # h # r"
  by (auto simp add: Suc_le_length_iff numeral_eq_Suc)

lemma putVarint_bytes:
  assumes "v \<le> 0x3FFFFFFFFFFFFFFF" and "varintLen v \<le> length buf"
  shows "putVarint buf v = Inr (varintLen v, varint_bytes v @ drop (varintLen v) buf)"
proof -
  consider (a) "v \<le> 0x3F" | (b) "\<not> v \<le> 0x3F" "v \<le> 0x3FFF"
    | (c) "\<not> v \<le> 0x3F" "\<not> v \<le> 0x3FFF" "v \<le> 0x3FFFFFFF"
    | (d) "\<not> v \<le> 0x3F" "\<not> v \<le> 0x3FFF" "\<not> v \<le> 0x3FFFFFFF"
    by blast
  then show ?thesis
  proof cases
    case a
    with assms(2) show ?thesis
      by (cases buf) (simp_all add: putVarint_def varint_bytes_def varintLen_def)
  next
    case b
    with assms(2) have "2 \<le> length buf" by (simp add: varintLen_def)
    from list_split2 [OF this] obtain a0 a1 r where "buf = a0 # a1 # r" by blast
    with b show ?thesis
      by (simp add: putVarint_def varint_bytes_def varintLen_def)
  next
    case c
    with assms(2) have "4 \<le> length buf" by (simp add: varintLen_def)
    from list_split4 [OF this] obtain a0 a1 a2 a3 r where "buf = a0 # a1 # a2 # a3 # r" by blast
    with c show ?thesis
      by (simp add: putVarint_def varint_bytes_def varintLen_def list_update_numeral)
  next
    case d
    with assms(2) have "8 \<le> length buf" by (simp add: varintLen_def)
    from list_split8 [OF this] obtain a0 a1 a2 a3 a4 a5 a6 a7 r
      where "buf = a0 # a1 # a2 # a3 # a4 # a5 # a6 # a7 # r" by blast
    with d assms(1) show ?thesis
      by (simp add: putVarint_def varint_bytes_def varintLen_def list_update_numeral)
  qed
qed

text \<open>
  C1.  For every value \<open>v\<close> below \<open>2\<^sup>6\<^sup>2\<close> and every buffer with room for \<open>varintLen v\<close>
  bytes, \<open>putVarint\<close> succeeds, writes the shortest of the 1/2/4/8-byte forms that holds
  \<open>v\<close>, and \<open>parseVarint\<close> on the written bytes (alone, or followed by the rest of the
  buffer) returns \<open>v\<close> and the number of bytes written.
\<close>

theorem varint_roundtrip:
  assumes "v \<le> 0x3FFFFFFFFFFFFFFF" and "varintLen v \<le> length buf"
  shows "case putVarint buf v of
           Inl e \<Rightarrow> False
         | Inr (n, buf') \<Rightarrow>
             n = (if unat v < 2 ^ 6 then 1 else if unat v < 2 ^ 14 then 2
                  else if unat v < 2 ^ 30 then 4 else 8) \<and>
             parseVarint (take n buf') = Inr (v, n) \<and> parseVarint buf' = Inr (v, n)"
proof -
  note l = assms(2)
  have n: "varintLen v = (if unat v < 2 ^ 6 then 1 else if unat v < 2 ^ 14 then 2
                  else if unat v < 2 ^ 30 then 4 else 8)"
    by (simp add: varintLen_def word_le_nat_alt)
  have t: "take (varintLen v) (varint_bytes v @ drop (varintLen v) buf) = varint_bytes v @ []"
    by (simp add: length_varint_bytes)
  show ?thesis
    unfolding putVarint_bytes [OF assms(1) l] 
    by (simp only: sum.case prod.case t parseVarint_bytes [OF assms(1)] n [symmetric])
qed


theorem varint_roundtrip_witness:
  "(16384::u64) \<le> 0x3FFFFFFFFFFFFFFF \<and> varintLen 16384 \<le> length (replicate 8 (0::byte)) \<and>
   putVarint (replicate 8 0) 16384 = Inr (4, [0x80, 0x00, 0x40, 0x00, 0, 0, 0, 0]) \<and>
   parseVarint [0x80, 0x00, 0x40, 0x00] = Inr (16384, 4)"
proof -
  have h1: "(16384::u64) \<le> 0x3FFFFFFFFFFFFFFF" by simp
  have h2: "varintLen 16384 \<le> length (replicate 8 (0::byte))" by (simp add: varintLen_def)
  have p: "putVarint (replicate 8 0) 16384 = Inr (4, [0x80, 0x00, 0x40, 0x00, 0, 0, 0, 0])"
    by code_simp
  from varint_roundtrip [OF h1 h2] h1 h2 p show ?thesis by simp
qed

section \<open>Packet header parsing\<close>

subsection \<open>What \<open>parseVarint\<close> returns on any input\<close>

lemma parseVarint_loop_total:
  "i + k \<le> length data \<Longrightarrow> \<exists>r. parseVarint_loop k data i v = Inr r"
  by (induction k arbitrary: i v) (simp_all add: index_def)

lemma take_bit_step:
  fixes v :: u64 and b :: byte
  assumes "take_bit m v = v"
  shows "take_bit (m + 8) (push_bit 8 v OR ucast b) = push_bit 8 v OR ucast b"
proof -
  have v: "bit v j \<Longrightarrow> j < m" for j
    using assms by (metis bit_take_bit_iff)
  have b: "bit b j \<Longrightarrow> j < 8" for j
    using bit_imp_le_length [of b j] by simp
  show ?thesis
    by (rule bit_word_eqI) (auto simp add: bit_simps dest: v b)
qed

lemma take_bit_first:
  fixes b :: byte
  shows "take_bit 6 (ucast (b AND 0x3F) :: u64) = ucast (b AND 0x3F)"
  by (rule bit_word_eqI) (auto simp add: bit_simps const_bits)

lemma parseVarint_loop_bound:
  "0 < i \<Longrightarrow> take_bit m v = v \<Longrightarrow> parseVarint_loop k data i v = Inr r \<Longrightarrow>
   take_bit (m + 8 * k) r = r"
proof (induction k arbitrary: i v m)
  case 0
  then show ?case by simp
next
  case (Suc k)
  from Suc.prems(3) obtain b :: byte where
    r: "parseVarint_loop k data (Suc i) (push_bit 8 v OR ucast b) = Inr r"
    using Suc.prems(1) by (auto split: sum.splits)
  have "take_bit (m + 8 + 8 * k) r = r"
    by (rule Suc.IH [OF _ take_bit_step [OF Suc.prems(2)] r]) simp
  then show ?case by (simp add: add.assoc)
qed

lemma parseVarint_loop_bound0:
  assumes "parseVarint_loop k data 0 0 = Inr r" and "k \<le> 8"
  shows "take_bit 62 r = r"
proof (cases k)
  case 0
  with assms show ?thesis by simp
next
  case (Suc k')
  with assms(1) obtain b :: byte where
    r: "parseVarint_loop k' data (Suc 0) (ucast (b AND 0x3F)) = Inr r"
    by (auto split: sum.splits)
  have "take_bit (6 + 8 * k') r = r"
    by (rule parseVarint_loop_bound [OF _ take_bit_first r]) simp
  moreover have "6 + 8 * k' \<le> 62" using assms(2) Suc by simp
  ultimately show ?thesis
    by (metis take_bit_take_bit min.absorb1 min.commute)
qed

lemma varint_len_cases:
  fixes b :: byte
  shows "push_bit (unat (drop_bit 6 (b AND 0xC0))) (1::nat) \<in> {1, 2, 4, 8}"
proof -
  have "unat (b AND 0xC0) < 256"
    using unsigned_less [of "b AND 0xC0", where 'a = nat] by simp
  then have "unat (drop_bit 6 (b AND 0xC0)) < 4"
    by (simp add: drop_bit_eq_div unat_div)
  then consider "unat (drop_bit 6 (b AND 0xC0)) = 0" | "unat (drop_bit 6 (b AND 0xC0)) = 1"
    | "unat (drop_bit 6 (b AND 0xC0)) = 2" | "unat (drop_bit 6 (b AND 0xC0)) = 3"
    by linarith
  then show ?thesis by cases simp_all
qed

lemma parseVarint_ok:
  "case parseVarint data of
     Inl e \<Rightarrow> e = ErrUnexpectedEOF
   | Inr (v, n) \<Rightarrow> 1 \<le> n \<and> n \<le> length data \<and> take_bit 62 v = v"
proof (cases "length data = 0")
  case True
  then show ?thesis by (simp add: parseVarint_def)
next
  case False
  define len where "len = push_bit (unat (drop_bit 6 (data ! 0 AND 0xC0))) (1::nat)"
  have len: "len \<in> {1, 2, 4, 8}" unfolding len_def by (rule varint_len_cases)
  have pos: "0 < length data" using False by simp
  have pv: "parseVarint data =
      (if length data < len then Inl ErrUnexpectedEOF
       else (case parseVarint_loop len data 0 0 of Inl e \<Rightarrow> Inl e | Inr v \<Rightarrow> Inr (v, len)))"
    by (simp only: parseVarint_def index_def len_def Let_def if_True if_False sum.case False pos)
  show ?thesis
  proof (cases "length data < len")
    case True
    then show ?thesis by (simp add: pv)
  next
    case le: False
    then obtain r where r: "parseVarint_loop len data 0 0 = Inr r"
      using parseVarint_loop_total [of 0 len data 0] by auto
    have "len \<le> 8" using len by auto
    from parseVarint_loop_bound0 [OF r this] len le r show ?thesis
      by (auto simp add: pv)
  qed
qed

lemma go_int_small:
  fixes v :: u64
  assumes "take_bit 62 v = v"
  shows "go_int v = uint v" and "unat v < 2 ^ 62" and "uint v < 2 ^ 62"
proof -
  have "unat (take_bit 62 v) < 2 ^ 62"
    using take_bit_nat_less_exp [of 62 "unat v"] by (simp add: unsigned_take_bit_eq)
  then show u: "unat v < 2 ^ 62" using assms by simp
  have "uint (take_bit 62 v) < 2 ^ 62"
    using take_bit_int_less_exp [of 62 "uint v"] by (simp add: unsigned_take_bit_eq)
  then show u': "uint v < 2 ^ 62" using assms by simp
  have "go_int v = signed_take_bit 63 (uint v)"
    by (simp add: go_int_def sint_uint)
  also have "\<dots> = uint v"
  proof (rule signed_take_bit_int_eq_self)
    have "- (2 ^ 63) \<le> (0::int)" by simp
    also have "0 \<le> uint v" by simp
    finally show "- (2 ^ 63) \<le> uint v" .
    show "uint v < 2 ^ 63" using u' by simp
  qed
  finally show "go_int v = uint v" .
qed

lemma go_add_small:
  assumes "0 \<le> a" "a < 2 ^ 62" "0 \<le> b" "b < 2 ^ 62"
  shows "go_add a b = a + b"
  unfolding go_add_def
proof (rule signed_take_bit_int_eq_self)
  have "- (2 ^ 63) \<le> (0::int)" by simp
  also have "0 \<le> a + b" using assms by simp
  finally show "- (2 ^ 63) \<le> a + b" .
  show "a + b < 2 ^ 63" using assms by simp
qed

lemma parsePN_loop_total:
  "offset + i + k \<le> length data \<Longrightarrow> \<exists>r. parsePN_loop k data offset i pn = Inr r"
  by (induction k arbitrary: i pn) (simp_all add: index_def)

lemma parsePacketNumber_ok:
  assumes "1 \<le> offset"
  shows "case parsePacketNumber data header firstByte offset of
           Inl e \<Rightarrow> \<not> is_panic e
         | Inr (h, n) \<Rightarrow> 1 \<le> n \<and> n \<le> length data"
proof -
  define pnLen where "pnLen = unat ((firstByte AND 0x03) + 1)"
  show ?thesis
  proof (cases "offset + pnLen > length data")
    case True
    then show ?thesis by (simp add: parsePacketNumber_def pnLen_def [symmetric])
  next
    case False
    then obtain r where "parsePN_loop pnLen data offset 0 0 = Inr r"
      using parsePN_loop_total [of offset 0 pnLen data 0] by auto
    with False assms show ?thesis
      by (simp add: parsePacketNumber_def pnLen_def [symmetric])
  qed
qed

lemma parseLengthAndPN_ok:
  assumes "1 \<le> offset" and "offset \<le> length data"
  shows "case parseLengthAndPN data header firstByte offset of
           Inl e \<Rightarrow> \<not> is_panic e
         | Inr (h, n) \<Rightarrow> 1 \<le> n \<and> n \<le> length data"
proof (cases "parseVarint (drop offset data)")
  case (Inl e)
  with parseVarint_ok [of "drop offset data"] assms show ?thesis
    by (simp add: parseLengthAndPN_def slice_from_def)
next
  case (Inr p)
  obtain len n where p: "p = (len, n)" by (cases p)
  have "1 \<le> offset + n" using assms by simp
  from parsePacketNumber_ok [OF this, of data "header\<lparr>Length := len\<rparr>" firstByte]
  show ?thesis using Inr p assms
    by (simp add: parseLengthAndPN_def slice_from_def)
qed

lemma parseToken_ok:
  assumes "1 \<le> offset" and "offset \<le> length data" and "length data < 2 ^ 62"
  shows "case parseToken data header offset of
           Inl e \<Rightarrow> \<not> is_panic e
         | Inr (h, n) \<Rightarrow> 1 \<le> n \<and> n \<le> length data"
proof (cases "parseVarint (drop offset data)")
  case (Inl e)
  with parseVarint_ok [of "drop offset data"] assms show ?thesis
    by (simp add: parseToken_def slice_from_def)
next
  case (Inr p)
  obtain tokenLen n where p: "p = (tokenLen, n)" by (cases p)
  from parseVarint_ok [of "drop offset data"] Inr p
  have n: "1 \<le> n" "n \<le> length data - offset" and t: "take_bit 62 tokenLen = tokenLen"
    by simp_all
  have o: "offset + n \<le> length data" using n assms(2) by simp
  have "int (offset + n) < 2 ^ 62" using o assms(3) by simp
  then have e: "go_add (int (offset + n)) (go_int tokenLen) = int (offset + n) + uint tokenLen"
    unfolding go_int_small(1) [OF t] using go_int_small(3) [OF t] by (intro go_add_small) simp_all
  then have e: "go_add (int offset + int n) (go_int tokenLen) = int offset + int n + uint tokenLen"
    by simp
  have m: "make_bytes tokenLen = Inr (replicate (unat tokenLen) 0)"
    by (simp add: make_bytes_def go_int_small(1) [OF t])
  have u: "0 \<le> uint tokenLen" by simp
  show ?thesis using Inr p assms n o
    by (simp add: parseToken_def slice_from_def Let_def e m slice_def slice_int_def)
      (use u in linarith)
qed

lemma parseLongHeader_rest_ok:
  assumes "1 \<le> offset" and "offset \<le> length data" and "length data < 2 ^ 62"
  shows "case parseLongHeader_rest data header firstByte offset of
           Inl e \<Rightarrow> \<not> is_panic e
         | Inr (h, n) \<Rightarrow> 1 \<le> n \<and> n \<le> length data"
proof (cases "Type header = PacketTypeInitial")
  case True
  show ?thesis
  proof (cases "parseToken data header offset")
    case (Inl e)
    with parseToken_ok [OF assms, of header] True show ?thesis
      by (simp add: parseLongHeader_rest_def)
  next
    case (Inr p)
    obtain h' o' where p: "p = (h', o')" by (cases p)
    from parseToken_ok [OF assms, of header] Inr p have "1 \<le> o'" "o' \<le> length data"
      by simp_all
    from parseLengthAndPN_ok [OF this, of h' firstByte] Inr p True show ?thesis
      by (simp add: parseLongHeader_rest_def)
  qed
next
  case False
  with parseLengthAndPN_ok [OF assms(1,2), of header firstByte] assms show ?thesis
    by (simp add: parseLongHeader_rest_def)
qed

lemma BigEndian_Uint32_total:
  "4 \<le> length b \<Longrightarrow> \<exists>v. BigEndian_Uint32 b = Inr v"
  by (simp add: BigEndian_Uint32_def index_def)

subsection \<open>The header parsers never read out of range\<close>

lemma parseLongHeader_ok:
  assumes "length data < 2 ^ 62"
  shows "case parseLongHeader data header firstByte of
           Inl e \<Rightarrow> \<not> is_panic e
         | Inr (h, n) \<Rightarrow> 1 \<le> n \<and> n \<le> length data"
proof -
  define dl where "dl = unat (data ! 5)"
  define sl where "sl = unat (data ! (6 + dl))"
  consider (short) "length data < 5"
    | (trunc1) "length data = 5"
    | (dest) "5 < length data" "length data < 6 + dl"
    | (trunc2) "5 < length data" "length data = 6 + dl"
    | (src) "5 < length data" "6 + dl < length data" "length data < 7 + dl + sl"
    | (rest) "5 < length data" "6 + dl < length data" "7 + dl + sl \<le> length data"
    by linarith
  then show ?thesis
  proof cases
    case short
    then show ?thesis by (simp add: parseLongHeader_def)
  next
    case trunc1
    then show ?thesis
      by (simp add: parseLongHeader_def slice_def BigEndian_Uint32_def index_def)
  next
    case dest
    then show ?thesis
      by (simp add: parseLongHeader_def slice_def BigEndian_Uint32_def index_def dl_def)
  next
    case trunc2
    then show ?thesis
      by (simp add: parseLongHeader_def slice_def BigEndian_Uint32_def index_def dl_def Let_def)
  next
    case src
    then show ?thesis
      by (simp add: parseLongHeader_def slice_def BigEndian_Uint32_def index_def dl_def sl_def Let_def)
  next
    case rest
    then have "\<exists>h'. parseLongHeader data header firstByte
                = parseLongHeader_rest data h' firstByte (7 + dl + sl)"
      by (simp add: parseLongHeader_def slice_def BigEndian_Uint32_def index_def dl_def sl_def Let_def
          add.assoc) blast
    then obtain h' where
      e: "parseLongHeader data header firstByte = parseLongHeader_rest data h' firstByte (7 + dl + sl)"
      by blast
    have "1 \<le> 7 + dl + sl" by simp
    from parseLongHeader_rest_ok [OF this rest(3) assms, of h' firstByte] show ?thesis
      unfolding e .
  qed
qed

lemma parseShortHeader_ok:
  "case parseShortHeader data header firstByte of
           Inl e \<Rightarrow> \<not> is_panic e
         | Inr (h, n) \<Rightarrow> 1 \<le> n \<and> n \<le> length data"
proof (cases "9 > length data")
  case True
  then show ?thesis by (simp add: parseShortHeader_def)
next
  case False
  then have "\<exists>h'. parseShortHeader data header firstByte = parsePacketNumber data h' firstByte 9"
    by (simp add: parseShortHeader_def slice_def) blast
  then obtain h' where
    e: "parseShortHeader data header firstByte = parsePacketNumber data h' firstByte 9" by blast
  have "1 \<le> (9::nat)" by simp
  from parsePacketNumber_ok [OF this, of data h' firstByte] show ?thesis unfolding e .
qed

text \<open>
  C10.  \<open>ParseHeader\<close> is total on every byte sequence (every buffer a Go program can
  hold is shorter than \<open>2\<^sup>6\<^sup>2\<close> bytes): it returns an error that is not a run-time
  panic, or a header and a consumed length \<open>n\<close> with \<open>1 \<le> n \<le> len(data)\<close>.  Index and
  slice expressions are bounds-checked in the model (\<open>index\<close>, \<open>slice\<close>, \<open>slice_from\<close>,
  \<open>make_bytes\<close>), so the absence of a panic is the statement that every access of
  \<open>parseLongHeader\<close>, \<open>parseShortHeader\<close> and \<open>parseVarint\<close> is within bounds.
\<close>

theorem ParseHeader_total_in_bounds:
  assumes "length data < 2 ^ 62"
  shows "case ParseHeader data of
           Inl e \<Rightarrow> \<not> is_panic e
         | Inr (h, n) \<Rightarrow> 1 \<le> n \<and> n \<le> length data"
proof (cases "length data = 0")
  case True
  then show ?thesis by (simp add: ParseHeader_def)
next
  case False
  then have i: "index data 0 = Inr (data ! 0)" by (simp add: index_def)
  show ?thesis
    using False parseLongHeader_ok [OF assms] parseShortHeader_ok
    by (simp add: ParseHeader_def i Let_def del: length_0_conv)
qed

theorem ParseHeader_total_in_bounds_witness:
  "length [0x40, 1, 2, 3, 4, 5, 6, 7, 8, 0x2A :: byte] < 2 ^ 62 \<and>
   ParseHeader [0x40, 1, 2, 3, 4, 5, 6, 7, 8, 0x2A]
     = Inr (\<lparr>Type = PacketType1RTT, Version = 0, DestConnID = [1, 2, 3, 4, 5, 6, 7, 8],
              SrcConnID = [], PacketNumber = 0x2A, Token = [], Length = 0,
              IsLongHeader = False\<rparr>, 10) \<and>
   (1::nat) \<le> 10 \<and> 10 \<le> length [0x40, 1, 2, 3, 4, 5, 6, 7, 8, 0x2A :: byte]"
proof -
  have h: "length [0x40, 1, 2, 3, 4, 5, 6, 7, 8, 0x2A :: byte] < 2 ^ 62" by simp
  have p: "ParseHeader [0x40, 1, 2, 3, 4, 5, 6, 7, 8, 0x2A]
     = Inr (\<lparr>Type = PacketType1RTT, Version = 0, DestConnID = [1, 2, 3, 4, 5, 6, 7, 8],
              SrcConnID = [], PacketNumber = 0x2A, Token = [], Length = 0,
              IsLongHeader = False\<rparr>, 10)"
    by code_simp
  from ParseHeader_total_in_bounds [OF h] h p show ?thesis by simp
qed

text \<open>
  C8.  The 27-byte Initial packet header of the specification parses as a long header of
  kind Initial, version 1, with the two 8-byte connection ids, an empty token, length
  100 and packet number 1, and 27 bytes are consumed.
\<close>

theorem ParseHeader_initial_example:
  "ParseHeader [0xC0, 0x00, 0x00, 0x00, 0x01, 0x08, 0x01, 0x02, 0x03, 0x04, 0x05, 0x06, 0x07, 0x08,
                0x08, 0x11, 0x12, 0x13, 0x14, 0x15, 0x16, 0x17, 0x18, 0x00, 0x40, 0x64, 0x01]
   = Inr (\<lparr>Type = PacketTypeInitial, Version = 1,
            DestConnID = [0x01, 0x02, 0x03, 0x04, 0x05, 0x06, 0x07, 0x08],
            SrcConnID = [0x11, 0x12, 0x13, 0x14, 0x15, 0x16, 0x17, 0x18],
            PacketNumber = 1, Token = [], Length = 100, IsLongHeader = True\<rparr>, 27)"
  by code_simp

section \<open>Streams: reassembly, end of stream and the final offset\<close>

lemma reassembly_received:
  "fst (ReceiveData (bytes ''World'') 6 False (NewStream 4 1024)) = None"
  "fst (ReceiveData (bytes ''Hello '') 0 False
         (snd (ReceiveData (bytes ''World'') 6 False (NewStream 4 1024)))) = None"
  "fst (ReceiveData (bytes ''!'') 11 True
       (snd (ReceiveData (bytes ''Hello '') 0 False
         (snd (ReceiveData (bytes ''World'') 6 False (NewStream 4 1024)))))) = None"
  by code_simp+

lemma reassembly_ordered: "getOrderedData reassembly_stream = bytes ''Hello World!''"
  by code_simp

lemma reassembly_state: "Stream.state reassembly_stream = StateHalfClosedRemote"
  by code_simp

lemma reassembly_consumed:
  "consumeData 12 reassembly_stream =
     \<lparr>id' = 4, streamType = StreamTypeBidirectional, state = StateHalfClosedRemote,
      sendBuffer = [], sendOffset = 0, sendFinished = False, recvBuffer = [], recvOffset = 12,
      recvFinished = True, recvFinalOffset = 12, maxData = 1024, sentData = 0, recvData = 12,
      resetError = None\<rparr>"
  by code_simp

lemma len12: "length (bytes ''Hello World!'') = 12" by code_simp

lemma ne12: "bytes ''Hello World!'' \<noteq> []" using len12 by auto

lemma reassembly_read:
  "Read (12 + k) reassembly_stream =
     (ReadOk 12 (bytes ''Hello World!''),
      \<lparr>id' = 4, streamType = StreamTypeBidirectional, state = StateHalfClosedRemote,
      sendBuffer = [], sendOffset = 0, sendFinished = False, recvBuffer = [], recvOffset = 12,
      recvFinished = True, recvFinalOffset = 12, maxData = 1024, sentData = 0, recvData = 12,
      resetError = None\<rparr>)"
  unfolding Read_def reassembly_state reassembly_ordered
  by (simp add: len12 ne12 Let_def reassembly_consumed)

lemma reassembly_eof:
  "Read n \<lparr>id' = 4, streamType = StreamTypeBidirectional, state = StateHalfClosedRemote,
      sendBuffer = [], sendOffset = 0, sendFinished = False, recvBuffer = [], recvOffset = 12,
      recvFinished = True, recvFinalOffset = 12, maxData = 1024, sentData = 0, recvData = 12,
      resetError = None\<rparr> = (ReadErr EOF, \<lparr>id' = 4, streamType = StreamTypeBidirectional, state = StateHalfClosedRemote,
      sendBuffer = [], sendOffset = 0, sendFinished = False, recvBuffer = [], recvOffset = 12,
      recvFinished = True, recvFinalOffset = 12, maxData = 1024, sentData = 0, recvData = 12,
      resetError = None\<rparr>)"
  by (simp add: Read_def getOrderedData_def)

text \<open>
  C9.  On a fresh stream with id 4 and \<open>maxData = 1024\<close>, the three segments
  (offset 6, \<open>"World"\<close>), (offset 0, \<open>"Hello "\<close>) and (offset 11, \<open>"!"\<close>, FIN) are all
  accepted; a read into a buffer of at least 12 bytes returns the 12 bytes
  \<open>"Hello World!"\<close>, the next read returns EOF, and the state is HalfClosedRemote.
\<close>

theorem stream_reassembly_example:
  "fst (ReceiveData (bytes ''World'') 6 False (NewStream 4 1024)) = None \<and>
   fst (ReceiveData (bytes ''Hello '') 0 False
         (snd (ReceiveData (bytes ''World'') 6 False (NewStream 4 1024)))) = None \<and>
   fst (ReceiveData (bytes ''!'') 11 True
       (snd (ReceiveData (bytes ''Hello '') 0 False
         (snd (ReceiveData (bytes ''World'') 6 False (NewStream 4 1024)))))) = None \<and>
   fst (Read (12 + k) reassembly_stream) = ReadOk 12 (bytes ''Hello World!'') \<and>
   fst (Read n (snd (Read (12 + k) reassembly_stream))) = ReadErr EOF \<and>
   Stream.state (snd (Read n (snd (Read (12 + k) reassembly_stream)))) = StateHalfClosedRemote"
  by (simp only: reassembly_received reassembly_read reassembly_eof fst_conv snd_conv) simp

text \<open>
  When \<open>Read\<close> returns EOF: in the states Closed and Reset (if no reset error is stored),
  and in HalfClosedRemote once a FIN has arrived and no segment starts at \<open>recvOffset\<close>.
  Neither condition compares \<open>recvOffset\<close> with \<open>recvFinalOffset\<close>.
\<close>

lemma Read_EOF_iff:
  assumes "resetError s = None"
  shows "fst (Read n s) = ReadErr EOF \<longleftrightarrow>
           Stream.state s = StateClosed \<or> Stream.state s = StateReset \<or>
           (getOrderedData s = [] \<and> Stream.state s = StateHalfClosedRemote \<and> recvFinished s)"
  using assms by (auto simp add: Read_def Let_def)

text \<open>
  C3.  The claim says that \<open>Read\<close> never returns EOF while \<open>recvOffset\<close> is below the final
  offset of a received FIN.  On a fresh stream that has received only the segment
  (offset 11, \<open>"!"\<close>, FIN), so that the bytes 0 to 10 are still missing, \<open>Read\<close> returns EOF
  although \<open>recvOffset = 0\<close> and \<open>recvFinalOffset = 12\<close>.
\<close>

theorem Read_eof_before_final_offset:
  "fst (Read n (snd (ReceiveData (bytes ''!'') 11 True (NewStream 4 1024)))) = ReadErr EOF \<and>
   recvOffset (snd (ReceiveData (bytes ''!'') 11 True (NewStream 4 1024))) = 0 \<and>
   recvFinished (snd (ReceiveData (bytes ''!'') 11 True (NewStream 4 1024))) \<and>
   recvFinalOffset (snd (ReceiveData (bytes ''!'') 11 True (NewStream 4 1024))) = 12"
  by code_simp

text \<open>
  C4, as stated, fails: after a FIN has set \<open>recvFinalOffset\<close> to 12, a second FIN-bearing
  segment that ends at offset 21 is accepted and overwrites it, and a segment without FIN
  that lies beyond the final offset is accepted as well.
\<close>

theorem recvFinalOffset_overwritten:
  "recvFinalOffset (snd (ReceiveData (bytes ''!'') 11 True (NewStream 4 1024))) = 12 \<and>
   fst (ReceiveData (bytes ''x'') 20 True
          (snd (ReceiveData (bytes ''!'') 11 True (NewStream 4 1024)))) = None \<and>
   recvFinalOffset (snd (ReceiveData (bytes ''x'') 20 True
          (snd (ReceiveData (bytes ''!'') 11 True (NewStream 4 1024))))) = 21 \<and>
   fst (ReceiveData (bytes ''late'') 30 False
          (snd (ReceiveData (bytes ''!'') 11 True (NewStream 4 1024)))) = None"
  by code_simp

text \<open>
  C4, as the code has it.  \<open>ReceiveData\<close> either rejects the segment and leaves the
  stream unchanged, or accepts it, and then \<open>recvFinalOffset\<close> is the end of the segment if
  it carries FIN and is unchanged otherwise; in the states Closed and Reset every
  segment is rejected.  \<open>Read\<close>, \<open>Write\<close>, \<open>Close\<close>, \<open>Reset\<close> and \<open>GetSendData\<close> never
  change \<open>recvFinalOffset\<close>.
\<close>

theorem recvFinalOffset_changes_only_by_accepted_fin:
  "(case ReceiveData data offset fin s of
      (Some e, s') \<Rightarrow> s' = s
    | (None, s') \<Rightarrow>
        recvFinalOffset s' = (if fin then offset + of_nat (length data) else recvFinalOffset s)) \<and>
   (Stream.state s = StateClosed \<or> Stream.state s = StateReset \<longrightarrow>
      ReceiveData data offset fin s = (Some ErrClosedOrReset, s)) \<and>
   recvFinalOffset (snd (Read n s)) = recvFinalOffset s \<and>
   recvFinalOffset (snd (Write p s)) = recvFinalOffset s \<and>
   recvFinalOffset (Close s) = recvFinalOffset s \<and>
   recvFinalOffset (Reset errorCode reason s) = recvFinalOffset s \<and>
   recvFinalOffset (snd (GetSendData maxSize s)) = recvFinalOffset s"
proof (intro conjI)
  show "case ReceiveData data offset fin s of
      (Some e, s') \<Rightarrow> s' = s
    | (None, s') \<Rightarrow>
        recvFinalOffset s' = (if fin then offset + of_nat (length data) else recvFinalOffset s)"
    by (simp add: ReceiveData_def Let_def setState_def)
  show "Stream.state s = StateClosed \<or> Stream.state s = StateReset \<longrightarrow>
      ReceiveData data offset fin s = (Some ErrClosedOrReset, s)"
    by (auto simp add: ReceiveData_def)
  show "recvFinalOffset (snd (Read n s)) = recvFinalOffset s"
    by (simp add: Read_def Let_def consumeData_def split: option.split)
  show "recvFinalOffset (snd (Write p s)) = recvFinalOffset s"
    by (simp add: Write_def Let_def split: option.split)
  show "recvFinalOffset (Close s) = recvFinalOffset s"
    by (simp add: Close_def Let_def setState_def)
  show "recvFinalOffset (Reset errorCode reason s) = recvFinalOffset s"
    by (simp add: Reset_def setState_def)
  show "recvFinalOffset (snd (GetSendData maxSize s)) = recvFinalOffset s"
    by (simp add: GetSendData_def Let_def)
qed

theorem recvFinalOffset_changes_only_by_accepted_fin_witness:
  "Stream.state (snd (ReceiveData (bytes ''hi'') 0 True (Close (NewStream 4 1024)))) = StateClosed \<and>
   ReceiveData (bytes ''x'') 5 True (snd (ReceiveData (bytes ''hi'') 0 True (Close (NewStream 4 1024))))
     = (Some ErrClosedOrReset, snd (ReceiveData (bytes ''hi'') 0 True (Close (NewStream 4 1024))))"
proof -
  have c: "Stream.state (snd (ReceiveData (bytes ''hi'') 0 True (Close (NewStream 4 1024)))) = StateClosed"
    by code_simp
  from recvFinalOffset_changes_only_by_accepted_fin
         [where data = "bytes ''x''" and offset = 5 and fin = True
            and s = "snd (ReceiveData (bytes ''hi'') 0 True (Close (NewStream 4 1024)))"] c
  show ?thesis by blast
qed

section \<open>CUBIC: slow start, loss and recovery\<close>

lemma OnPacketSent_fresh:
  "OnPacketSent sentTime 1200 pn 1200 True (NewCubicCongestionControl 1200)
     = Some ((), (NewCubicCongestionControl 1200)\<lparr>bytesInFlight := 1200\<rparr>)"
  by (simp add: OnPacketSent_def locked_def NewCubicCongestionControl_def Lock_def Unlock_def)

text \<open>
  C5.  The claim says the window grows.  On a fresh controller with a datagram size of
  1200, \<open>OnPacketSent\<close> followed by \<open>OnAck\<close> for packet 1 with 1200 bytes acknowledged and
  1200 bytes previously in flight returns, does not report a recovery exit, and leaves
  the state SlowStart and the window at 12000: \<open>isCwndLimitedLocked\<close> requires
  \<open>priorInFlight \<ge> cwnd / 2 = 6000\<close> before the window may grow.
\<close>

theorem slow_start_ack_leaves_window:
  "map_option (\<lambda>(exited, c). (exited, congestionWindow c, CubicCongestionControl.state c))
     (OnAck cbrt pow 1 1200 1200 eventTime
        (snd (the (OnPacketSent sentTime 1200 1 1200 True (NewCubicCongestionControl 1200)))))
   = Some (False, 12000, SlowStart)"
  unfolding OnPacketSent_fresh
  by (simp add: OnAck_def locked_def NewCubicCongestionControl_def Lock_def Unlock_def Let_def
      maybeIncreaseCwndLocked_def isCwndLimitedLocked_def)

text \<open>
  C6.  The claim says \<open>OnPacketLost\<close> yields a window of 8400.  \<open>OnPacketLost\<close> takes the
  write lock and then calls \<open>InRecovery\<close>, which asks for the read lock of the same
  mutex: whatever its arguments and the controller, the call never returns.
\<close>

theorem OnPacketLost_never_returns:
  "OnPacketLost now packetNumber lostBytes priorInFlight c = None"
  by (simp add: OnPacketLost_def locked_def Lock_def InRecovery_def rlocked_def RLock_def
      split: RWMutex.split)

text \<open>
  The arithmetic \<open>OnPacketLost\<close> would perform on a fresh controller after the lock:
  \<open>uint64(float64(12000) * 0.7)\<close> is 8400 in binary64 arithmetic.
\<close>

lemma betaCubic_value: "round_double (7 / 10) = 3152519739159347 / 4503599627370496"
  by code_simp

lemma reduceCongestionWindow_fresh:
  "congestionWindow (reduceCongestionWindow
     (enterRecoveryLocked now 1 (NewCubicCongestionControl 1200))) = 8400"
  "slowStartThreshold (reduceCongestionWindow
     (enterRecoveryLocked now 1 (NewCubicCongestionControl 1200))) = 8400"
  "CubicCongestionControl.state (reduceCongestionWindow
     (enterRecoveryLocked now 1 (NewCubicCongestionControl 1200))) = FastRecovery"
  by code_simp+

subsection \<open>The packet number that ends a recovery\<close>











section \<open>Frames: serialization followed by parsing\<close>

subsection \<open>What \<open>Serialize\<close> writes\<close>

lemma writes_put:
  assumes "varint_ok v"
  shows "writes (put v) (varint_bytes v)"
  unfolding writes_def
proof (intro allI impI)
  fix offset :: nat and buf :: "byte list"
  assume r: "offset + length (varint_bytes v) \<le> length buf"
  have v: "v \<le> 0x3FFFFFFFFFFFFFFF" using assms by (simp add: varint_ok_def)
  have l: "varintLen v \<le> length (drop offset buf)"
    using r by (simp add: length_varint_bytes)
  have o: "offset \<le> length buf" using r by simp
  show "put v (offset, buf)
          = Inr (offset + length (varint_bytes v),
                 take offset buf @ varint_bytes v @ drop (offset + length (varint_bytes v)) buf)"
    using o by (simp add: put_def slice_from_def putVarint_bytes [OF v l] length_varint_bytes
        add.commute)
qed

lemma writes_copy_data: "writes (copy_data d) d"
  unfolding writes_def
  by (auto simp add: copy_data_def slice_from_def copy_bytes_def add.commute)

lemma writes_seq_Nil: "writes (seq []) []"
  by (simp add: writes_def)

lemma writes_seq_Cons:
  assumes "writes w b" and "writes (seq ws) bs"
  shows "writes (seq (w # ws)) (b @ bs)"
  unfolding writes_def
proof (intro allI impI)
  fix offset :: nat and buf :: "byte list"
  assume r: "offset + length (b @ bs) \<le> length buf"
  define buf1 where "buf1 = take offset buf @ b @ drop (offset + length b) buf"
  have w: "w (offset, buf) = Inr (offset + length b, buf1)"
    using assms(1) r unfolding writes_def buf1_def by simp
  have l1: "length buf1 = length buf" using r by (simp add: buf1_def)
  have s: "seq ws (offset + length b, buf1)
             = Inr (offset + length b + length bs,
                    take (offset + length b) buf1 @ bs @ drop (offset + length b + length bs) buf1)"
    using assms(2) r l1 unfolding writes_def by (simp add: add.assoc)
  have t: "take (offset + length b) buf1 = take offset buf @ b"
    using r by (simp add: buf1_def)
  have d: "drop (offset + length b + length bs) buf1 = drop (offset + length b + length bs) buf"
    using r by (simp add: buf1_def add.commute add.left_commute)
  show "seq (w # ws) (offset, buf)
          = Inr (offset + length (b @ bs),
                 take offset buf @ (b @ bs) @ drop (offset + length (b @ bs)) buf)"
    by (simp add: w s t d) (simp add: add.assoc)
qed

lemma seq_append:
  "seq (ws1 @ ws2) s = (case seq ws1 s of Inl e \<Rightarrow> Inl e | Inr s' \<Rightarrow> seq ws2 s')"
  by (induction ws1 arbitrary: s) (simp_all split: sum.splits)

lemma writes_seq_append:
  assumes "writes (seq ws1) b1" and "writes (seq ws2) b2"
  shows "writes (seq (ws1 @ ws2)) (b1 @ b2)"
  unfolding writes_def
proof (intro allI impI)
  fix offset :: nat and buf :: "byte list"
  assume r: "offset + length (b1 @ b2) \<le> length buf"
  define buf1 where "buf1 = take offset buf @ b1 @ drop (offset + length b1) buf"
  have w: "seq ws1 (offset, buf) = Inr (offset + length b1, buf1)"
    using assms(1) r unfolding writes_def buf1_def by simp
  have l1: "length buf1 = length buf" using r by (simp add: buf1_def)
  have s: "seq ws2 (offset + length b1, buf1)
             = Inr (offset + length b1 + length b2,
                    take (offset + length b1) buf1 @ b2 @ drop (offset + length b1 + length b2) buf1)"
    using assms(2) r l1 unfolding writes_def by (simp add: add.assoc)
  have t: "take (offset + length b1) buf1 = take offset buf @ b1"
    using r by (simp add: buf1_def)
  have d: "drop (offset + length b1 + length b2) buf1 = drop (offset + length b1 + length b2) buf"
    using r by (simp add: buf1_def add.commute add.left_commute)
  show "seq (ws1 @ ws2) (offset, buf)
          = Inr (offset + length (b1 @ b2),
                 take offset buf @ (b1 @ b2) @ drop (offset + length (b1 @ b2)) buf)"
    by (simp add: seq_append w s t d) (simp add: add.assoc)
qed

lemma writes_ranges:
  assumes "list_all (\<lambda>r. case r of AckRange g l \<Rightarrow> varint_ok g \<and> varint_ok l) rs"
  shows "writes (seq (concat (map (\<lambda>r. case r of AckRange gap len \<Rightarrow> [put gap, put len]) rs)))
           (concat (map range_bytes rs))"
  using assms
proof (induction rs)
  case Nil
  then show ?case by (simp add: writes_def)
next
  case (Cons r rs)
  obtain g l where r: "r = AckRange g l" by (cases r)
  from Cons.prems r have ok: "varint_ok g" "varint_ok l" by simp_all
  have tl: "writes (seq (concat (map (\<lambda>r. case r of AckRange gap len \<Rightarrow> [put gap, put len]) rs)))
           (concat (map range_bytes rs))"
    using Cons by simp
  have "writes (seq (put g # put l # concat (map (\<lambda>r. case r of AckRange gap len \<Rightarrow> [put gap, put len]) rs)))
          (varint_bytes g @ varint_bytes l @ concat (map range_bytes rs))"
    by (intro writes_seq_Cons writes_put ok tl)
  then show ?case
    unfolding r
    by (simp only: list.map concat.simps AckRange.case range_bytes.simps append.simps append_assoc)
qed

lemma writes_if:
  assumes "c \<Longrightarrow> writes (seq ws) bs"
  shows "writes (seq (if c then ws else [])) (if c then bs else [])"
  using assms by (cases c) (simp_all add: writes_def)

lemma writes_seq1: "writes w1 b1 \<Longrightarrow> writes (seq [w1]) b1"
  using writes_seq_Cons [OF _ writes_seq_Nil, of w1 b1] by simp

lemma writes_seq2:
  "writes w1 b1 \<Longrightarrow> writes w2 b2 \<Longrightarrow> writes (seq [w1, w2]) (b1 @ b2)"
  by (intro writes_seq_Cons writes_seq1)

lemma writes_seq3:
  "writes w1 b1 \<Longrightarrow> writes w2 b2 \<Longrightarrow> writes w3 b3 \<Longrightarrow>
   writes (seq [w1, w2, w3]) (b1 @ b2 @ b3)"
  by (intro writes_seq_Cons writes_seq1)

lemma writes_seq4:
  "writes w1 b1 \<Longrightarrow> writes w2 b2 \<Longrightarrow> writes w3 b3 \<Longrightarrow> writes w4 b4 \<Longrightarrow>
   writes (seq [w1, w2, w3, w4]) (b1 @ b2 @ b3 @ b4)"
  by (intro writes_seq_Cons writes_seq1)

lemma run_writes:
  assumes "writes w bs" and "length bs \<le> length buf"
  shows "w (0, buf) = Inr (length bs, bs @ drop (length bs) buf)"
  using assms unfolding writes_def by simp

lemma Frame_Type_small: "Frame_Type f \<le> 0x3F"
proof (cases f)
  case (AckFrame la ad rs e)
  then show ?thesis by (cases e) (simp add: FrameTypeAck_def FrameTypeAckECN_def)
next
  case (StreamFrame sid off d fin)
  then show ?thesis
    by (cases fin; cases "d = []"; cases "off > 0") (simp_all add: FrameTypeStream_def)
qed (simp_all add: FrameTypeCrypto_def FrameTypeConnectionClose_def
      FrameTypeConnectionCloseApp_def FrameTypePing_def FrameTypePadding_def)

lemma Frame_Type_ok: "varint_ok (Frame_Type f)"
proof -
  have "Frame_Type f \<le> 0x3F" by (rule Frame_Type_small)
  also have "(0x3F :: u64) \<le> 0x3FFFFFFFFFFFFFFF" by simp
  finally show ?thesis by (simp add: varint_ok_def)
qed

lemma of_nat_length_ok:
  assumes "length (d :: 'a list) < 2 ^ 62"
  shows "varint_ok (of_nat (length d))" and "unat (of_nat (length d) :: u64) = length d"
proof -
  have l: "length d < 2 ^ 64" using assms by (rule less_trans) simp
  show u: "unat (of_nat (length d) :: u64) = length d"
    using l by (simp add: unsigned_of_nat take_bit_nat_eq_self)
  have "unat (of_nat (length d) :: u64) \<le> unat (0x3FFFFFFFFFFFFFFF :: u64)"
    using assms unfolding u by simp
  then show "varint_ok (of_nat (length d))"
    unfolding varint_ok_def word_le_nat_alt .
qed

lemma writes_frame:
  assumes "sensible f" and "f \<noteq> PingFrame" and "\<forall>n. f \<noteq> PaddingFrame n"
  shows "\<exists>ws. writes (seq ws) (frame_bytes f) \<and>
          Serialize f buf = (case seq ws (0, buf) of Inl e \<Rightarrow> Inl e
                             | Inr (offset, buf') \<Rightarrow> Inr (int offset, buf'))"
proof (cases f)
  case (AckFrame la ad rs e)
  obtain e0 e1 e2 where e: "e = (e0, e1, e2)" by (cases e) auto
  note f = AckFrame [unfolded e]
  let ?f = "AckFrame la ad rs (e0, e1, e2)"
  from assms(1) have ok: "varint_ok la" "varint_ok ad" "length rs < 2 ^ 62"
      "list_all (\<lambda>r. case r of AckRange g l \<Rightarrow> varint_ok g \<and> varint_ok l) rs"
      "varint_ok e0" "varint_ok e1" "varint_ok e2"
    by (simp_all add: f)
  let ?ws = "[put (Frame_Type ?f), put la, put ad, put (of_nat (length rs))]
                @ concat (map (\<lambda>r. case r of AckRange gap len \<Rightarrow> [put gap, put len]) rs)
                @ (if Frame_Type ?f = FrameTypeAckECN then [put e0, put e1, put e2] else [])"
  have 1: "writes (seq [put (Frame_Type ?f), put la, put ad, put (of_nat (length rs))])
             (varint_bytes (Frame_Type ?f) @ varint_bytes la @ varint_bytes ad
              @ varint_bytes (of_nat (length rs)))"
    by (intro writes_seq4 writes_put Frame_Type_ok ok of_nat_length_ok(1))
  have 3: "writes (seq (if Frame_Type ?f = FrameTypeAckECN then [put e0, put e1, put e2] else []))
             (if Frame_Type ?f = FrameTypeAckECN
              then varint_bytes e0 @ varint_bytes e1 @ varint_bytes e2 else [])"
    by (intro writes_if writes_seq3 writes_put ok)
  have "writes (seq ?ws)
          ((varint_bytes (Frame_Type ?f) @ varint_bytes la @ varint_bytes ad
              @ varint_bytes (of_nat (length rs)))
           @ concat (map range_bytes rs)
           @ (if Frame_Type ?f = FrameTypeAckECN
              then varint_bytes e0 @ varint_bytes e1 @ varint_bytes e2 else []))"
    by (intro writes_seq_append 1 3 writes_ranges ok)
  then have "writes (seq ?ws) (frame_bytes ?f)"
    unfolding frame_bytes.simps by (simp only: append_assoc)
  moreover have "Serialize ?f buf = (case seq ?ws (0, buf) of Inl e \<Rightarrow> Inl e
                             | Inr (offset, buf') \<Rightarrow> Inr (int offset, buf'))"
    by (simp only: Serialize.simps Let_def)
  ultimately show ?thesis unfolding f by blast
next
  case (StreamFrame sid off d fin)
  note f = StreamFrame
  let ?f = "StreamFrame sid off d fin"
  from assms(1) have ok: "varint_ok sid" "varint_ok off" "length d < 2 ^ 62"
    by (simp_all add: f)
  let ?ws = "[put (Frame_Type ?f), put sid]
                @ (if off > 0 then [put off] else [])
                @ (if length d > 0 then [put (of_nat (length d))] else [])
                @ [copy_data d]"
  have 1: "writes (seq [put (Frame_Type ?f), put sid])
             (varint_bytes (Frame_Type ?f) @ varint_bytes sid)"
    by (intro writes_seq2 writes_put Frame_Type_ok ok)
  have 2: "writes (seq (if off > 0 then [put off] else []))
             (if off > 0 then varint_bytes off else [])"
    by (intro writes_if writes_seq1 writes_put ok)
  have 3: "writes (seq (if length d > 0 then [put (of_nat (length d))] else []))
             (if length d > 0 then varint_bytes (of_nat (length d)) else [])"
    by (intro writes_if writes_seq1 writes_put of_nat_length_ok(1) ok)
  have 4: "writes (seq [copy_data d]) d"
    by (intro writes_seq1 writes_copy_data)
  have "writes (seq ?ws)
          ((varint_bytes (Frame_Type ?f) @ varint_bytes sid)
           @ (if off > 0 then varint_bytes off else [])
           @ (if length d > 0 then varint_bytes (of_nat (length d)) else [])
           @ d)"
    by (intro writes_seq_append 1 2 3 4)
  then have "writes (seq ?ws) (frame_bytes ?f)"
    unfolding frame_bytes.simps by (simp only: append_assoc)
  moreover have "Serialize ?f buf = (case seq ?ws (0, buf) of Inl e \<Rightarrow> Inl e
                             | Inr (offset, buf') \<Rightarrow> Inr (int offset, buf'))"
    by (simp only: Serialize.simps Let_def)
  ultimately show ?thesis unfolding f by blast
next
  case (CryptoFrame off d)
  note f = CryptoFrame
  let ?f = "CryptoFrame off d"
  from assms(1) have ok: "varint_ok off" "length d < 2 ^ 62"
    by (simp_all add: f)
  let ?ws = "[put (Frame_Type ?f), put off, put (of_nat (length d)), copy_data d]"
  have "writes (seq ?ws)
          (varint_bytes (Frame_Type ?f) @ varint_bytes off @ varint_bytes (of_nat (length d)) @ d)"
    by (intro writes_seq4 writes_put writes_copy_data Frame_Type_ok of_nat_length_ok(1) ok)
  then have "writes (seq ?ws) (frame_bytes ?f)"
    unfolding frame_bytes.simps Frame_Type.simps .
  moreover have "Serialize ?f buf = (case seq ?ws (0, buf) of Inl e \<Rightarrow> Inl e
                             | Inr (offset, buf') \<Rightarrow> Inr (int offset, buf'))"
    by (simp only: Serialize.simps Let_def)
  ultimately show ?thesis unfolding f by blast
next
  case (ConnectionCloseFrame ec ft reason app)
  note f = ConnectionCloseFrame
  let ?f = "ConnectionCloseFrame ec ft reason app"
  from assms(1) have ok: "varint_ok ec" "varint_ok ft" "length reason < 2 ^ 62"
    by (simp_all add: f)
  let ?ws = "[put (Frame_Type ?f), put ec]
                @ (if \<not> app then [put ft] else [])
                @ [put (of_nat (length reason)), copy_data reason]"
  have 1: "writes (seq [put (Frame_Type ?f), put ec])
             (varint_bytes (Frame_Type ?f) @ varint_bytes ec)"
    by (intro writes_seq2 writes_put Frame_Type_ok ok)
  have 2: "writes (seq (if \<not> app then [put ft] else []))
             (if \<not> app then varint_bytes ft else [])"
    by (intro writes_if writes_seq1 writes_put ok)
  have 3: "writes (seq [put (of_nat (length reason)), copy_data reason])
             (varint_bytes (of_nat (length reason)) @ reason)"
    by (intro writes_seq2 writes_put writes_copy_data of_nat_length_ok(1) ok)
  have "writes (seq ?ws)
          ((varint_bytes (Frame_Type ?f) @ varint_bytes ec)
           @ (if \<not> app then varint_bytes ft else [])
           @ (varint_bytes (of_nat (length reason)) @ reason))"
    by (intro writes_seq_append 1 2 3)
  then have "writes (seq ?ws) (frame_bytes ?f)"
    unfolding frame_bytes.simps by (simp only: append_assoc)
  moreover have "Serialize ?f buf = (case seq ?ws (0, buf) of Inl e \<Rightarrow> Inl e
                             | Inr (offset, buf') \<Rightarrow> Inr (int offset, buf'))"
    by (simp only: Serialize.simps Let_def)
  ultimately show ?thesis unfolding f by blast
next
  case PingFrame
  with assms(2) show ?thesis by simp
next
  case (PaddingFrame n)
  with assms(3) show ?thesis by simp
qed

lemma Serialize_bytes:
  assumes "sensible f" and "length (frame_bytes f) \<le> length buf"
  shows "Serialize f buf
           = Inr (int (length (frame_bytes f)),
                  frame_bytes f @ drop (length (frame_bytes f)) buf)"
proof (cases "f = PingFrame \<or> (\<exists>n. f = PaddingFrame n)")
  case False
  then obtain ws where ws: "writes (seq ws) (frame_bytes f)"
    and s: "Serialize f buf = (case seq ws (0, buf) of Inl e \<Rightarrow> Inl e
                             | Inr (offset, buf') \<Rightarrow> Inr (int offset, buf'))"
    using writes_frame [OF assms(1), of buf] by blast
  show ?thesis unfolding s run_writes [OF ws assms(2)] by simp
next
  case True
  then show ?thesis
  proof
    assume f: "f = PingFrame"
    have v: "FrameTypePing \<le> 0x3FFFFFFFFFFFFFFF" by (simp add: FrameTypePing_def)
    have l: "varintLen FrameTypePing \<le> length buf"
      using assms(2) by (simp add: f length_varint_bytes)
    show ?thesis
      by (simp add: f putVarint_bytes [OF v l] length_varint_bytes)
  next
    assume "\<exists>n. f = PaddingFrame n"
    then obtain n where f: "f = PaddingFrame n" by blast
    with assms have "1 \<le> n" "nat n \<le> length buf" by simp_all
    then show ?thesis by (simp add: f zero_prefix_def min_def Let_def)
  qed
qed

subsection \<open>What the parsers read\<close>

lemma suffix_at_advance:
  assumes "suffix_at data offset (bs @ rest)"
  shows "suffix_at data (offset + length bs) rest"
proof -
  from assms have o: "offset \<le> length data" and d: "drop offset data = bs @ rest"
    by (simp_all add: suffix_at_def)
  have "length (drop offset data) = length bs + length rest" by (simp add: d)
  then have l: "offset + length bs \<le> length data" using o by simp
  have "drop (offset + length bs) data = drop (length bs) (drop offset data)"
    by (simp add: add.commute)
  also have "\<dots> = rest" by (simp add: d)
  finally show ?thesis using l by (simp add: suffix_at_def)
qed

lemma getVarint_at:
  assumes "suffix_at data offset (varint_bytes v @ rest)" and "varint_ok v"
  shows "getVarint data offset = Inr (v, offset + varintLen v)"
    and "suffix_at data (offset + varintLen v) rest"
proof -
  from assms(1) have o: "offset \<le> length data"
    and d: "drop offset data = varint_bytes v @ rest"
    by (simp_all add: suffix_at_def)
  have v: "v \<le> 0x3FFFFFFFFFFFFFFF" using assms(2) by (simp add: varint_ok_def)
  show "getVarint data offset = Inr (v, offset + varintLen v)"
    using o by (simp add: getVarint_def slice_from_def d parseVarint_bytes [OF v])
  show "suffix_at data (offset + varintLen v) rest"
    using suffix_at_advance [OF assms(1)] by (simp add: length_varint_bytes)
qed

lemma getBytes_at:
  assumes "suffix_at data offset (d @ rest)" and "length d < 2 ^ 62" and "offset < 2 ^ 62"
  shows "getBytes err data offset (of_nat (length d)) = Inr (d, offset + length d)"
    and "suffix_at data (offset + length d) rest"
proof -
  from assms(1) have o: "offset \<le> length data" and dd: "drop offset data = d @ rest"
    by (simp_all add: suffix_at_def)
  have s: "suffix_at data (offset + length d) rest"
    by (rule suffix_at_advance [OF assms(1)])
  then have l: "offset + length d \<le> length data" by (simp add: suffix_at_def)
  have u: "unat (of_nat (length d) :: u64) = length d"
    by (rule of_nat_length_ok(2) [OF assms(2)])
  have t: "take_bit 62 (of_nat (length d) :: u64) = of_nat (length d)"
    using of_nat_length_ok(1) [OF assms(2)] by (simp add: varint_ok_def take_bit_62_id)
  have gi: "go_int (of_nat (length d)) = int (length d)"
    using go_int_small(1) [OF t] u by (metis uint_nat)
  have ga: "go_add (int offset) (int (length d)) = int offset + int (length d)"
    by (rule go_add_small) (use assms(2,3) in simp_all)
  have m: "make_bytes (of_nat (length d)) = Inr (replicate (length d) 0)"
    by (simp add: make_bytes_def gi u)
  have sl: "slice_int data (int offset) (int offset + int (length d)) = Inr d"
    using l by (simp add: slice_int_def slice_def nat_add_distrib dd)
  show "getBytes err data offset (of_nat (length d)) = Inr (d, offset + length d)"
    using l by (simp add: getBytes_def gi ga m sl Let_def copy_bytes_def nat_add_distrib)
  show "suffix_at data (offset + length d) rest" by (rule s)
qed

lemma parseAckRanges_loop_at:
  assumes "suffix_at data offset (concat (map range_bytes rs) @ rest)"
    and "list_all (\<lambda>r. case r of AckRange g l \<Rightarrow> varint_ok g \<and> varint_ok l) rs"
    and "i = length done"
  shows "parseAckRanges_loop (length rs) data offset i (done @ replicate (length rs) z)
           = Inr (done @ rs, offset + length (concat (map range_bytes rs))) \<and>
         suffix_at data (offset + length (concat (map range_bytes rs))) rest"
  using assms
proof (induction rs arbitrary: offset i "done")
  case Nil
  then show ?case by simp
next
  case (Cons r rs)
  obtain g l where r: "r = AckRange g l" by (cases r)
  from Cons.prems(2) r have ok: "varint_ok g" "varint_ok l"
    and oks: "list_all (\<lambda>r. case r of AckRange g l \<Rightarrow> varint_ok g \<and> varint_ok l) rs"
    by simp_all
  from Cons.prems(1) have s0:
    "suffix_at data offset (varint_bytes g @ varint_bytes l @ concat (map range_bytes rs) @ rest)"
    by (simp add: r)
  note g = getVarint_at [OF s0 ok(1)]
  note l = getVarint_at [OF g(2) ok(2)]
  have upd: "(done @ replicate (length (r # rs)) z)[i := AckRange g l]
               = (done @ [AckRange g l]) @ replicate (length rs) z"
    using Cons.prems(3) by simp
  have i': "i + 1 = length (done @ [AckRange g l])" using Cons.prems(3) by simp
  from Cons.IH [OF l(2) oks i']
  have ih: "parseAckRanges_loop (length rs) data (offset + varintLen g + varintLen l) (i + 1)
              ((done @ [AckRange g l]) @ replicate (length rs) z)
            = Inr ((done @ [AckRange g l]) @ rs,
                   offset + varintLen g + varintLen l + length (concat (map range_bytes rs)))"
    and s': "suffix_at data
               (offset + varintLen g + varintLen l + length (concat (map range_bytes rs))) rest"
    by simp_all
  have "parseAckRanges_loop (length (r # rs)) data offset i (done @ replicate (length (r # rs)) z)
          = parseAckRanges_loop (length rs) data (offset + varintLen g + varintLen l) (i + 1)
              ((done @ [AckRange g l]) @ replicate (length rs) z)"
    using upd by (simp add: g(1) l(1))
  with ih s' show ?case
    by (simp add: r length_varint_bytes add.assoc)
qed

lemma suffix_at_start:
  assumes "t \<le> 0x3F"
  shows "suffix_at (varint_bytes t @ fs) 1 fs"
  using assms by (simp add: suffix_at_def varint_bytes_def)

lemma parseVarint_type:
  assumes "t \<le> 0x3F"
  shows "parseVarint (varint_bytes t @ fs) = Inr (t, 1)"
proof -
  have "t \<le> 0x3FFFFFFFFFFFFFFF"
    using assms by (rule order_trans) simp
  from parseVarint_bytes [OF this, of fs] assms show ?thesis
    by (simp add: varintLen_def)
qed

lemma make_ranges_length:
  assumes "length (rs :: AckRange list) < 2 ^ 62"
  shows "make_ranges (of_nat (length rs)) = Inr (replicate (length rs) (AckRange 0 0))"
proof -
  have t: "take_bit 62 (of_nat (length rs) :: u64) = of_nat (length rs)"
    using of_nat_length_ok(1) [OF assms] by (simp add: varint_ok_def take_bit_62_id)
  have "go_int (of_nat (length rs)) = uint (of_nat (length rs) :: u64)"
    by (rule go_int_small(1) [OF t])
  then have "\<not> go_int (of_nat (length rs)) < 0" by simp
  then show ?thesis
    by (simp add: make_ranges_def of_nat_length_ok(2) [OF assms])
qed

lemma parseAckFrame_bytes:
  assumes "sensible (AckFrame la ad rs (e0, e1, e2))"
    and "t = Frame_Type (AckFrame la ad rs (e0, e1, e2))"
    and s0: "suffix_at data o0 (varint_bytes la @ varint_bytes ad
              @ varint_bytes (of_nat (length rs)) @ concat (map range_bytes rs)
              @ (if t = FrameTypeAckECN
                 then varint_bytes e0 @ varint_bytes e1 @ varint_bytes e2 else []))"
  shows "parseAckFrame data o0 t
           = Inr (AckFrame la ad rs (e0, e1, e2), int (length data) - int o0)"
proof -
  from assms(1) have ok: "varint_ok la" "varint_ok ad" "length rs < 2 ^ 62"
      "list_all (\<lambda>r. case r of AckRange g l \<Rightarrow> varint_ok g \<and> varint_ok l) rs"
      "varint_ok e0" "varint_ok e1" "varint_ok e2"
    by simp_all
  let ?ecn = "if t = FrameTypeAckECN
                 then varint_bytes e0 @ varint_bytes e1 @ varint_bytes e2 else []"
  note a = getVarint_at [OF s0 ok(1)]
  note b = getVarint_at [OF a(2) ok(2)]
  note c = getVarint_at [OF b(2) of_nat_length_ok(1) [OF ok(3)]]
  define o3 where "o3 = o0 + varintLen la + varintLen ad + varintLen (of_nat (length rs))"
  have "parseAckRanges_loop (length rs) data o3 0 ([] @ replicate (length rs) (AckRange 0 0))
           = Inr ([] @ rs, o3 + length (concat (map range_bytes rs))) \<and>
         suffix_at data (o3 + length (concat (map range_bytes rs))) ?ecn"
    unfolding o3_def by (rule parseAckRanges_loop_at [OF c(2) ok(4)]) simp
  then have r: "parseAckRanges_loop (length rs) data o3 0 (replicate (length rs) (AckRange 0 0))
           = Inr (rs, o3 + length (concat (map range_bytes rs)))"
    and s4: "suffix_at data (o3 + length (concat (map range_bytes rs))) ?ecn"
    by simp_all
  define o4 where "o4 = o3 + length (concat (map range_bytes rs))"
  have head: "parseAckFrame data o0 t =
      (if t = FrameTypeAckECN then
            (case getVarint data o4 of
               Inl e \<Rightarrow> Inl e
             | Inr (ect0, offset) \<Rightarrow>
            (case getVarint data offset of
               Inl e \<Rightarrow> Inl e
             | Inr (ect1, offset) \<Rightarrow>
            (case getVarint data offset of
               Inl e \<Rightarrow> Inl e
             | Inr (ect2, offset) \<Rightarrow>
                 Inr (AckFrame la ad rs (ect0, ect1, ect2), int offset - int o0))))
          else Inr (AckFrame la ad rs (0, 0, 0), int o4 - int o0))"
    using r
    by (simp add: parseAckFrame_def Let_def a(1) b(1) c(1) make_ranges_length [OF ok(3)]
        of_nat_length_ok(2) [OF ok(3)] o3_def [symmetric] o4_def [symmetric])
  show ?thesis
  proof (cases "t = FrameTypeAckECN")
    case True
    with s4 have s4': "suffix_at data o4 (varint_bytes e0 @ varint_bytes e1 @ varint_bytes e2 @ [])"
      by (simp add: o4_def)
    note x = getVarint_at [OF s4' ok(5)]
    note y = getVarint_at [OF x(2) ok(6)]
    note z = getVarint_at [OF y(2) ok(7)]
    from z(2) have len: "length data = o4 + varintLen e0 + varintLen e1 + varintLen e2"
      by (simp add: suffix_at_def)
    have "parseAckFrame data o0 t
            = Inr (AckFrame la ad rs (e0, e1, e2),
                   int (o4 + varintLen e0 + varintLen e1 + varintLen e2) - int o0)"
      unfolding head by (simp add: True x(1) y(1) z(1))
    then show ?thesis unfolding len .
  next
    case False
    with s4 have len: "length data = o4" by (simp add: suffix_at_def o4_def)
    from False assms(2) have e: "e0 = 0" "e1 = 0" "e2 = 0"
      by (auto simp add: word_greater_zero_iff split: if_splits)
    have "parseAckFrame data o0 t = Inr (AckFrame la ad rs (0, 0, 0), int o4 - int o0)"
      unfolding head using False by simp
    then show ?thesis unfolding len e .
  qed
qed

lemma stream_type_bits:
  assumes "t = Frame_Type (StreamFrame sid off d fin)"
  shows "(t AND 0x01 \<noteq> 0) = fin" and "(t AND 0x04 \<noteq> 0) = (off > 0)"
    and "(t AND 0x02 \<noteq> 0) = (length d > 0)" and "t AND 0xF8 = 0x08"
    and "t \<noteq> FrameTypePadding" and "t \<noteq> FrameTypePing" and "t \<noteq> FrameTypeAck"
    and "t \<noteq> FrameTypeAckECN" and "t \<noteq> FrameTypeCrypto"
    and "t \<noteq> FrameTypeConnectionClose" and "t \<noteq> FrameTypeConnectionCloseApp"
  unfolding assms
  by (cases fin; cases "length d > 0"; cases "off > 0";
      simp add: FrameTypeStream_def FrameTypePadding_def FrameTypePing_def FrameTypeAck_def
        FrameTypeAckECN_def FrameTypeCrypto_def FrameTypeConnectionClose_def
        FrameTypeConnectionCloseApp_def)+

lemma varintLen_le8: "varintLen v \<le> 8"
  by (simp add: varintLen_def)

lemma parseStreamFrame_bytes:
  assumes "sensible (StreamFrame sid off d fin)"
    and t: "t = Frame_Type (StreamFrame sid off d fin)"
    and s0: "suffix_at data o0 (varint_bytes sid
              @ (if off > 0 then varint_bytes off else [])
              @ (if length d > 0 then varint_bytes (of_nat (length d)) else []) @ d)"
    and o0: "o0 \<le> 8"
  shows "parseStreamFrame data o0 t
           = Inr (StreamFrame sid off d fin, int (length data) - int o0)"
proof -
  from assms(1) have ok: "varint_ok sid" "varint_ok off" "length d < 2 ^ 62"
    by simp_all
  note bits = stream_type_bits(1-3) [OF t]
  note a = getVarint_at [OF s0 ok(1)]
  define o1 where "o1 = o0 + varintLen sid"
  define o2 where "o2 = (if off > 0 then o1 + varintLen off else o1)"
  define o3 where "o3 = (if length d > 0 then o2 + varintLen (of_nat (length d)) else o2)"
  have b: "(if t AND 0x04 \<noteq> 0 then getVarint data o1 else Inr (0, o1)) = Inr (off, o2)"
    and s2: "suffix_at data o2
               ((if length d > 0 then varint_bytes (of_nat (length d)) else []) @ d)"
  proof -
    show "(if t AND 0x04 \<noteq> 0 then getVarint data o1 else Inr (0, o1)) = Inr (off, o2)"
    proof (cases "off > 0")
      case True
      with a(2) have "suffix_at data o1 (varint_bytes off
          @ (if length d > 0 then varint_bytes (of_nat (length d)) else []) @ d)"
        by (simp add: o1_def)
      from getVarint_at(1) [OF this ok(2)] True show ?thesis
        by (simp add: bits o2_def)
    next
      case False
      then have "off = 0" by (simp add: word_greater_zero_iff)
      with False show ?thesis by (simp add: bits o2_def)
    qed
    show "suffix_at data o2
               ((if length d > 0 then varint_bytes (of_nat (length d)) else []) @ d)"
    proof (cases "off > 0")
      case True
      with a(2) have "suffix_at data o1 (varint_bytes off
          @ (if length d > 0 then varint_bytes (of_nat (length d)) else []) @ d)"
        by (simp add: o1_def)
      from getVarint_at(2) [OF this ok(2)] True show ?thesis
        by (simp add: o2_def)
    next
      case False
      with a(2) show ?thesis by (simp add: o2_def o1_def)
    qed
  qed
  have c: "(if t AND 0x02 \<noteq> 0 then getVarint data o2
             else Inr (of_nat (length data - o2), o2)) = Inr (of_nat (length d), o3)"
    and s3: "suffix_at data o3 (d @ [])"
  proof -
    show "(if t AND 0x02 \<noteq> 0 then getVarint data o2
             else Inr (of_nat (length data - o2), o2)) = Inr (of_nat (length d), o3)"
    proof (cases "length d > 0")
      case True
      with s2 have "suffix_at data o2 (varint_bytes (of_nat (length d)) @ d)" by simp
      from getVarint_at(1) [OF this of_nat_length_ok(1) [OF ok(3)]] True show ?thesis
        by (simp add: bits o3_def)
    next
      case False
      with s2 have "length data = o2" by (simp add: suffix_at_def)
      with False show ?thesis by (simp add: bits o3_def)
    qed
    show "suffix_at data o3 (d @ [])"
    proof (cases "length d > 0")
      case True
      with s2 have "suffix_at data o2 (varint_bytes (of_nat (length d)) @ d)" by simp
      from getVarint_at(2) [OF this of_nat_length_ok(1) [OF ok(3)]] True show ?thesis
        by (simp add: o3_def)
    next
      case False
      with s2 show ?thesis by (simp add: o3_def)
    qed
  qed
  have "o3 \<le> o0 + 8 + 8 + 8"
    using varintLen_le8 [of sid] varintLen_le8 [of off] varintLen_le8 [of "of_nat (length d)"]
    by (simp add: o3_def o2_def o1_def)
  then have "o3 \<le> 32" using o0 by simp
  also have "(32::nat) < 2 ^ 62" by simp
  finally have o3: "o3 < 2 ^ 62" .
  note g = getBytes_at(1) [OF s3 ok(3) o3, where err = ErrStreamDataBounds]
  from getBytes_at(2) [OF s3 ok(3) o3] have len: "length data = o3 + length d" by (simp add: suffix_at_def)
  have "parseStreamFrame data o0 t
          = Inr (StreamFrame sid off d fin, int (o3 + length d) - int o0)"
    by (simp add: parseStreamFrame_def Let_def a(1) o1_def [symmetric] b c g bits(1))
  then show ?thesis unfolding len .
qed

lemma small_offset:
  assumes "o' \<le> 40"
  shows "(o' :: nat) < 2 ^ 62"
proof -
  have "(40::nat) < 2 ^ 62" by simp
  with assms show ?thesis by (rule le_less_trans)
qed

lemma parseCryptoFrame_bytes:
  assumes "sensible (CryptoFrame off d)"
    and s0: "suffix_at data o0 (varint_bytes off @ varint_bytes (of_nat (length d)) @ d)"
    and o0: "o0 \<le> 8"
  shows "parseCryptoFrame data o0 = Inr (CryptoFrame off d, int (length data) - int o0)"
proof -
  from assms(1) have ok: "varint_ok off" "length d < 2 ^ 62"
    by simp_all
  note a = getVarint_at [OF s0 ok(1)]
  note b = getVarint_at [OF a(2) of_nat_length_ok(1) [OF ok(2)]]
  define o2 where "o2 = o0 + varintLen off + varintLen (of_nat (length d))"
  from b(2) have s2: "suffix_at data o2 (d @ [])" by (simp add: o2_def)
  have "o2 \<le> 40"
    using varintLen_le8 [of off] varintLen_le8 [of "of_nat (length d)"] o0
    by (simp add: o2_def)
  then have o2: "o2 < 2 ^ 62" by (rule small_offset)
  note g = getBytes_at(1) [OF s2 ok(2) o2, where err = ErrCryptoDataBounds]
  from getBytes_at(2) [OF s2 ok(2) o2] have len: "length data = o2 + length d"
    by (simp add: suffix_at_def)
  have "parseCryptoFrame data o0 = Inr (CryptoFrame off d, int (o2 + length d) - int o0)"
    by (simp add: parseCryptoFrame_def Let_def a(1) b(1) o2_def [symmetric] g)
  then show ?thesis unfolding len .
qed

lemma parseConnectionCloseFrame_bytes:
  assumes "sensible (ConnectionCloseFrame ec ft reason app)"
    and t: "t = Frame_Type (ConnectionCloseFrame ec ft reason app)"
    and s0: "suffix_at data o0 (varint_bytes ec
               @ (if \<not> app then varint_bytes ft else [])
               @ varint_bytes (of_nat (length reason)) @ reason)"
    and o0: "o0 \<le> 8"
  shows "parseConnectionCloseFrame data o0 t
           = Inr (ConnectionCloseFrame ec ft reason app, int (length data) - int o0)"
proof -
  from assms(1) have ok: "varint_ok ec" "varint_ok ft" "length reason < 2 ^ 62"
    and ft: "app \<Longrightarrow> ft = 0"
    by simp_all
  have app: "(t = FrameTypeConnectionCloseApp) = app"
    unfolding t by (simp add: FrameTypeConnectionCloseApp_def FrameTypeConnectionClose_def)
  note a = getVarint_at [OF s0 ok(1)]
  define o1 where "o1 = o0 + varintLen ec"
  define o2 where "o2 = (if \<not> app then o1 + varintLen ft else o1)"
  have b: "(if \<not> app then getVarint data o1 else Inr (0, o1)) = Inr (ft, o2)"
    and s2: "suffix_at data o2 (varint_bytes (of_nat (length reason)) @ reason)"
  proof -
    show "(if \<not> app then getVarint data o1 else Inr (0, o1)) = Inr (ft, o2)"
    proof (cases app)
      case False
      with a(2) have "suffix_at data o1 (varint_bytes ft
          @ varint_bytes (of_nat (length reason)) @ reason)"
        by (simp add: o1_def)
      from getVarint_at(1) [OF this ok(2)] False show ?thesis
        by (simp add: o2_def)
    next
      case True
      with ft show ?thesis by (simp add: o2_def)
    qed
    show "suffix_at data o2 (varint_bytes (of_nat (length reason)) @ reason)"
    proof (cases app)
      case False
      with a(2) have "suffix_at data o1 (varint_bytes ft
          @ varint_bytes (of_nat (length reason)) @ reason)"
        by (simp add: o1_def)
      from getVarint_at(2) [OF this ok(2)] False show ?thesis
        by (simp add: o2_def)
    next
      case True
      with a(2) show ?thesis by (simp add: o2_def o1_def)
    qed
  qed
  note c = getVarint_at [OF s2 of_nat_length_ok(1) [OF ok(3)]]
  define o3 where "o3 = o2 + varintLen (of_nat (length reason))"
  from c(2) have s3: "suffix_at data o3 (reason @ [])" by (simp add: o3_def)
  have "o3 \<le> 40"
    using varintLen_le8 [of ec] varintLen_le8 [of ft]
      varintLen_le8 [of "of_nat (length reason)"] o0
    by (simp add: o3_def o2_def o1_def)
  then have o3: "o3 < 2 ^ 62" by (rule small_offset)
  note g = getBytes_at(1) [OF s3 ok(3) o3, where err = ErrReasonBounds]
  from getBytes_at(2) [OF s3 ok(3) o3] have len: "length data = o3 + length reason"
    by (simp add: suffix_at_def)
  have "parseConnectionCloseFrame data o0 t
          = Inr (ConnectionCloseFrame ec ft reason app, int (o3 + length reason) - int o0)"
    by (simp add: parseConnectionCloseFrame_def Let_def a(1) o1_def [symmetric] app b c(1)
        o3_def [symmetric] g)
  then show ?thesis unfolding len .
qed

lemma parsePadding_loop_zeros:
  "parsePadding_loop (replicate k 0) len = len + k"
  by (induction k arbitrary: len) simp_all

lemma ParseFrame_bytes:
  assumes "sensible f"
  shows "ParseFrame (frame_bytes f)
           = Inr (f, reported_length f (int (length (frame_bytes f))))"
proof (cases f)
  case (AckFrame la ad rs e)
  obtain e0 e1 e2 where e: "e = (e0, e1, e2)" by (cases e) auto
  note f = AckFrame [unfolded e]
  define t where "t = Frame_Type (AckFrame la ad rs (e0, e1, e2))"
  define fs where "fs = varint_bytes la @ varint_bytes ad
              @ varint_bytes (of_nat (length rs)) @ concat (map range_bytes rs)
              @ (if t = FrameTypeAckECN
                 then varint_bytes e0 @ varint_bytes e1 @ varint_bytes e2 else [])"
  have fb: "frame_bytes f = varint_bytes t @ fs"
    by (simp only: f frame_bytes.simps t_def fs_def)
  have ts: "t \<le> 0x3F" unfolding t_def by (rule Frame_Type_small)
  have tt: "t = FrameTypeAck \<or> t = FrameTypeAckECN" by (simp add: t_def)
  have ne: "t \<noteq> FrameTypePadding" "t \<noteq> FrameTypePing"
    using tt by (auto simp add: FrameTypeAck_def FrameTypeAckECN_def FrameTypePadding_def
        FrameTypePing_def)
  have s: "suffix_at (varint_bytes t @ fs) 1 fs" by (rule suffix_at_start [OF ts])
  have p: "parseAckFrame (varint_bytes t @ fs) 1 t
             = Inr (AckFrame la ad rs (e0, e1, e2), int (length (varint_bytes t @ fs)) - int 1)"
    unfolding fs_def
    by (rule parseAckFrame_bytes [OF assms [unfolded f] t_def s [unfolded fs_def]])
  have "ParseFrame (varint_bytes t @ fs) = parseAckFrame (varint_bytes t @ fs) 1 t"
    using tt ne by (simp add: ParseFrame_def parseVarint_type [OF ts] length_varint_bytes
        varintLen_def ts)
  then show ?thesis unfolding fb p by (simp add: f)
next
  case (StreamFrame sid off d fin)
  note f = StreamFrame
  define t where "t = Frame_Type (StreamFrame sid off d fin)"
  define fs where "fs = varint_bytes sid
              @ (if off > 0 then varint_bytes off else [])
              @ (if length d > 0 then varint_bytes (of_nat (length d)) else []) @ d"
  have fb: "frame_bytes f = varint_bytes t @ fs"
    by (simp only: f frame_bytes.simps t_def fs_def)
  have ts: "t \<le> 0x3F" unfolding t_def by (rule Frame_Type_small)
  note bits = stream_type_bits(4-11) [OF t_def]
  have s: "suffix_at (varint_bytes t @ fs) 1 fs" by (rule suffix_at_start [OF ts])
  have p: "parseStreamFrame (varint_bytes t @ fs) 1 t
             = Inr (StreamFrame sid off d fin, int (length (varint_bytes t @ fs)) - int 1)"
    unfolding fs_def
    by (rule parseStreamFrame_bytes [OF assms [unfolded f] t_def s [unfolded fs_def]]) simp
  have "ParseFrame (varint_bytes t @ fs) = parseStreamFrame (varint_bytes t @ fs) 1 t"
    using bits by (simp add: ParseFrame_def parseVarint_type [OF ts] length_varint_bytes
        varintLen_def ts)
  then show ?thesis unfolding fb p by (simp add: f)
next
  case (CryptoFrame off d)
  note f = CryptoFrame
  define t where "t = FrameTypeCrypto"
  define fs where "fs = varint_bytes off @ varint_bytes (of_nat (length d)) @ d"
  have fb: "frame_bytes f = varint_bytes t @ fs"
    by (simp only: f frame_bytes.simps t_def fs_def)
  have ts: "t \<le> 0x3F" unfolding t_def by (simp add: FrameTypeCrypto_def)
  have ne: "t \<noteq> FrameTypePadding" "t \<noteq> FrameTypePing" "t \<noteq> FrameTypeAck"
    "t \<noteq> FrameTypeAckECN"
    by (simp_all add: t_def FrameTypeCrypto_def FrameTypeAck_def FrameTypeAckECN_def
        FrameTypePadding_def FrameTypePing_def)
  have s: "suffix_at (varint_bytes t @ fs) 1 fs" by (rule suffix_at_start [OF ts])
  have p: "parseCryptoFrame (varint_bytes t @ fs) 1
             = Inr (CryptoFrame off d, int (length (varint_bytes t @ fs)) - int 1)"
    unfolding fs_def
    by (rule parseCryptoFrame_bytes [OF assms [unfolded f] s [unfolded fs_def]]) simp
  have "ParseFrame (varint_bytes t @ fs) = parseCryptoFrame (varint_bytes t @ fs) 1"
    using ne by (simp add: ParseFrame_def parseVarint_type [OF ts] length_varint_bytes
        varintLen_def ts) (simp add: t_def)
  then show ?thesis unfolding fb p by (simp add: f)
next
  case (ConnectionCloseFrame ec ft reason app)
  note f = ConnectionCloseFrame
  define t where "t = Frame_Type (ConnectionCloseFrame ec ft reason app)"
  define fs where "fs = varint_bytes ec
               @ (if \<not> app then varint_bytes ft else [])
               @ varint_bytes (of_nat (length reason)) @ reason"
  have fb: "frame_bytes f = varint_bytes t @ fs"
    by (simp only: f frame_bytes.simps t_def fs_def)
  have ts: "t \<le> 0x3F" unfolding t_def by (rule Frame_Type_small)
  have tt: "t = FrameTypeConnectionClose \<or> t = FrameTypeConnectionCloseApp"
    by (simp add: t_def)
  have ne: "t \<noteq> FrameTypePadding" "t \<noteq> FrameTypePing" "t \<noteq> FrameTypeAck"
    "t \<noteq> FrameTypeAckECN" "t \<noteq> FrameTypeCrypto"
    using tt by (auto simp add: FrameTypeCrypto_def FrameTypeAck_def FrameTypeAckECN_def
        FrameTypePadding_def FrameTypePing_def FrameTypeConnectionClose_def
        FrameTypeConnectionCloseApp_def)
  have s: "suffix_at (varint_bytes t @ fs) 1 fs" by (rule suffix_at_start [OF ts])
  have p: "parseConnectionCloseFrame (varint_bytes t @ fs) 1 t
             = Inr (ConnectionCloseFrame ec ft reason app,
                    int (length (varint_bytes t @ fs)) - int 1)"
    unfolding fs_def
    by (rule parseConnectionCloseFrame_bytes [OF assms [unfolded f] t_def s [unfolded fs_def]])
      simp
  have "ParseFrame (varint_bytes t @ fs) = parseConnectionCloseFrame (varint_bytes t @ fs) 1 t"
    using tt ne by (simp add: ParseFrame_def parseVarint_type [OF ts] length_varint_bytes
        varintLen_def ts)
  then show ?thesis unfolding fb p by (simp add: f)
next
  case PingFrame
  have ts: "FrameTypePing \<le> 0x3F" by (simp add: FrameTypePing_def)
  have ne: "FrameTypePing \<noteq> FrameTypePadding"
    by (simp add: FrameTypePing_def FrameTypePadding_def)
  from parseVarint_type [OF ts, of "[]"] ne show ?thesis
    by (simp add: PingFrame ParseFrame_def length_varint_bytes varintLen_def ts)
next
  case (PaddingFrame n)
  with assms have n: "1 \<le> n" by simp
  then obtain k where k: "nat n = Suc k" by (cases "nat n") auto
  have z: "replicate (nat n) (0::byte) = varint_bytes FrameTypePadding @ replicate k 0"
    by (simp add: k varint_bytes_def FrameTypePadding_def)
  have ts: "FrameTypePadding \<le> 0x3F" by (simp add: FrameTypePadding_def)
  have "int (Suc k) = n" using k n by linarith
  then show ?thesis
    unfolding PaddingFrame frame_bytes.simps z
    by (simp add: ParseFrame_def parseVarint_type [OF ts] parsePaddingFrame_def
        parsePadding_loop_zeros length_varint_bytes varintLen_def ts)
qed

lemma ranges_length:
  "(\<Sum>r\<leftarrow>rs. case r of AckRange gap len \<Rightarrow> int (varintLen gap) + int (varintLen len))
     = int (length (concat (map range_bytes rs)))"
proof (induction rs)
  case Nil
  then show ?case by simp
next
  case (Cons r rs)
  then show ?case by (cases r) (simp add: length_varint_bytes)
qed

lemma varintLen_type: "varintLen (Frame_Type f) = 1"
  using Frame_Type_small [of f] by (simp add: varintLen_def)

lemma length_type_bytes: "length (varint_bytes (Frame_Type f)) = 1"
  by (simp only: length_varint_bytes varintLen_type)

lemma Frame_Length_bytes:
  assumes "sensible f"
  shows "Frame_Length f = int (length (frame_bytes f))"
proof (cases f)
  case (AckFrame la ad rs e)
  obtain e0 e1 e2 where e: "e = (e0, e1, e2)" by (cases e) auto
  have t: "varintLen (Frame_Type (AckFrame la ad rs (e0, e1, e2))) = 1"
    by (rule varintLen_type)
  show ?thesis
    unfolding AckFrame e Frame_Length.simps frame_bytes.simps ranges_length
    by (simp add: t length_varint_bytes del: Frame_Type.simps)
next
  case (StreamFrame sid off d fin)
  have t: "varintLen (Frame_Type (StreamFrame sid off d fin)) = 1"
    by (rule varintLen_type)
  show ?thesis
    unfolding StreamFrame Frame_Length.simps frame_bytes.simps
    by (simp add: t length_varint_bytes del: Frame_Type.simps)
next
  case (CryptoFrame off d)
  have t: "varintLen (Frame_Type (CryptoFrame off d)) = 1"
    by (rule varintLen_type)
  then show ?thesis
    unfolding CryptoFrame Frame_Length.simps frame_bytes.simps
    by (simp add: length_varint_bytes)
next
  case (ConnectionCloseFrame ec ft reason app)
  have t: "varintLen (Frame_Type (ConnectionCloseFrame ec ft reason app)) = 1"
    by (rule varintLen_type)
  show ?thesis
    unfolding ConnectionCloseFrame Frame_Length.simps frame_bytes.simps
    by (simp add: t length_varint_bytes del: Frame_Type.simps)
next
  case PingFrame
  have "length (varint_bytes (Frame_Type PingFrame)) = 1" by (rule length_type_bytes)
  then show ?thesis by (simp add: PingFrame)
next
  case (PaddingFrame n)
  with assms show ?thesis by simp
qed

text \<open>
  C2, as stated, fails.  The frame table of the specification lists kinds for which
  the code has neither a frame type nor a parser: the wire image of HANDSHAKE_DONE, a
  frame without fields, is the single byte \<open>0x1e\<close>, and \<open>ParseFrame\<close> rejects it, as it
  rejects a RESET_STREAM frame (stream 4, error 0, final size 12) and a MAX_DATA frame
  (limit 100).
\<close>

theorem ParseFrame_rejects_other_kinds:
  "ParseFrame [0x1e] = Inl (ErrUnsupportedFrame FrameTypeHandshakeDone) \<and>
   ParseFrame [0x04, 0x04, 0x00, 0x0c] = Inl (ErrUnsupportedFrame FrameTypeResetStream) \<and>
   ParseFrame [0x10, 0x40, 0x64] = Inl (ErrUnsupportedFrame FrameTypeMaxData)"
  by code_simp

text \<open>
  C2, as the code has it.  For each of the six implemented kinds (PADDING, PING,
  ACK and ACK-ECN, CRYPTO, STREAM, CONNECTION_CLOSE of both variants), for every sensible
  payload and every buffer with room for \<open>Length()\<close> bytes, \<open>Serialize\<close> succeeds and
  writes \<open>Length()\<close> bytes, and \<open>ParseFrame\<close> on exactly these bytes returns a frame equal
  to the original (with the byte count its parser reports).
\<close>

theorem frame_roundtrip:
  assumes "sensible f" and "Frame_Length f \<le> int (length buf)"
  shows "case Serialize f buf of
           Inl e \<Rightarrow> False
         | Inr (n, buf') \<Rightarrow>
             n = Frame_Length f \<and>
             ParseFrame (take (nat n) buf') = Inr (f, reported_length f n)"
proof -
  have l: "length (frame_bytes f) \<le> length buf"
    using assms(2) unfolding Frame_Length_bytes [OF assms(1)] by simp
  show ?thesis
    unfolding Serialize_bytes [OF assms(1) l]
    by (simp add: Frame_Length_bytes [OF assms(1)] ParseFrame_bytes [OF assms(1)])
qed

theorem frame_roundtrip_witness:
  "sensible (StreamFrame 4 0 (bytes ''Hi'') True) \<and>
   Frame_Length (StreamFrame 4 0 (bytes ''Hi'') True) \<le> int (length (replicate 10 (0::byte))) \<and>
   Serialize (StreamFrame 4 0 (bytes ''Hi'') True) (replicate 10 0)
     = Inr (5, [0x0b, 0x04, 0x02, 0x48, 0x69, 0, 0, 0, 0, 0]) \<and>
   ParseFrame [0x0b, 0x04, 0x02, 0x48, 0x69] = Inr (StreamFrame 4 0 (bytes ''Hi'') True, 4)"
proof -
  have h1: "sensible (StreamFrame 4 0 (bytes ''Hi'') True)"
    by (simp add: varint_ok_def bytes_def)
  have h2: "Frame_Length (StreamFrame 4 0 (bytes ''Hi'') True)
              \<le> int (length (replicate 10 (0::byte)))"
    by (simp add: varintLen_def bytes_def)
  have s: "Serialize (StreamFrame 4 0 (bytes ''Hi'') True) (replicate 10 0)
     = Inr (5, [0x0b, 0x04, 0x02, 0x48, 0x69, 0, 0, 0, 0, 0])" by code_simp
  from frame_roundtrip [OF h1 h2] h1 h2 s show ?thesis by simp
qed

end
